theory Spec2Isabelle
  imports Complex_Main "HOL-Library.Word" "HOL-Library.Log_Nat"
begin

section \<open>The AM7p bridge: packet decoder, device registry, liveness and bridge loop\<close>

text \<open>
  A shallow embedding of \<^verbatim>\<open>am7p_bridge.py\<close>. Conventions of the model:
  \<^item> a \<^verbatim>\<open>bytes\<close> object is a list of 8-bit words, a Python \<^verbatim>\<open>int\<close> is an
    \<open>int\<close>;
  \<^item> a Python \<^verbatim>\<open>float\<close> is the rational number that the binary64 value denotes.
    True division \<^verbatim>\<open>/\<close> of two integers rounds the exact quotient to 53 significant
    bits, as CPython does. The readings of \<^verbatim>\<open>time.time()\<close> are arbitrary rationals
    and their difference is taken exactly;
  \<^item> an exception is a value: a function that can raise returns a sum whose \<open>Inl\<close>
    side is the exception;
  \<^item> the MQTT client and the socket are external: a call of \<^verbatim>\<open>client.publish\<close>,
    \<^verbatim>\<open>sock.close\<close> or \<^verbatim>\<open>client.loop_stop\<close> is recorded as an event of a
    trace and is assumed to return normally.
\<close>

subsection \<open>Packet decoder\<close>

type_synonym byte = "8 word"

datatype py_error = Struct_error

record measurement =
  pm25 :: int
  pm10 :: int
  hcho :: rat
  tvoc :: rat
  co2 :: int
  temperature :: rat
  humidity :: rat

text \<open>One \<^verbatim>\<open>H\<close> item of a big-endian format: two bytes, the high one first.\<close>

definition u16_be :: "byte list \<Rightarrow> nat \<Rightarrow> int" where
  "u16_be buf i = uint (buf ! i) * 256 + uint (buf ! (i + 1))"

text \<open>
  \<^verbatim>\<open>struct.unpack_from(">HHHHHHH", buf)\<close>: raises \<^verbatim>\<open>struct.error\<close> on a buffer of
  fewer than 14 bytes, otherwise reads seven items from offset 0 and ignores the rest.
\<close>

definition unpack_from_7H :: "byte list \<Rightarrow> py_error + int list" where
  "unpack_from_7H buf =
     (if length buf < 14 then Inl Struct_error
      else Inr [u16_be buf 0, u16_be buf 2, u16_be buf 4, u16_be buf 6,
                u16_be buf 8, u16_be buf 10, u16_be buf 12])"

text \<open>
  \<^verbatim>\<open>a / b\<close> on two integers. CPython returns the binary64 value nearest to the exact
  quotient, ties going to the even significand: with \<open>e\<close> the exponent that brings the
  quotient into \<open>[2^52, 2^53)\<close>, the significand is the quotient scaled by \<open>2^-e\<close> and
  rounded to an integer. \<open>ilog2 n d\<close> is the floor of the binary logarithm of \<open>n / d\<close>
  for positive \<open>n\<close> and \<open>d\<close>, found from the bit lengths. The formula is the binary64
  result for a divisor other than 0 and a quotient in the normal range, which is all
  that the decoder needs: its divisor is 100 and its dividends lie between \<open>-3500\<close>
  and \<open>65535\<close>.
\<close>

definition round_half_even :: "rat \<Rightarrow> int" where
  "round_half_even x =
     (let f = \<lfloor>x\<rfloor>; r = x - of_int f
      in if r < 1 / 2 then f else if 1 / 2 < r then f + 1 else if even f then f else f + 1)"

definition ilog2 :: "int \<Rightarrow> int \<Rightarrow> int" where
  "ilog2 n d =
     (let k = bitlen n - bitlen d
      in if (2 :: rat) powi k \<le> of_int n / of_int d then k else k - 1)"

definition py_truediv :: "int \<Rightarrow> int \<Rightarrow> rat" where
  "py_truediv a b =
     (if a = 0 then 0
      else let q = of_int a / of_int b;
               e = ilog2 \<bar>a\<bar> \<bar>b\<bar> - 52
           in sgn q * of_int (round_half_even (\<bar>q\<bar> / 2 powi e)) * 2 powi e)"

text \<open>
  \<^verbatim>\<open>parse_packet\<close>: \<open>Inr None\<close> is the returned \<^verbatim>\<open>None\<close> (the packet is
  rejected), \<open>Inr (Some m)\<close> the returned dictionary, \<open>Inl e\<close> a raised exception.
\<close>

definition parse_packet :: "byte list \<Rightarrow> py_error + measurement option" where
  "parse_packet data =
     (if length data < 23 + 14 then Inr None
      else case unpack_from_7H (drop 23 data) of
             Inl e \<Rightarrow> Inl e
           | Inr x \<Rightarrow> Inr (Some \<lparr>
               pm25 = x ! 0,
               pm10 = x ! 1,
               hcho = py_truediv (x ! 2) 100,
               tvoc = py_truediv (x ! 3) 100,
               co2 = x ! 4,
               temperature = py_truediv (x ! 5 - 3500) 100,
               humidity = py_truediv (x ! 6) 100 \<rparr>))"

text \<open>
  The sender's side of the layout, \<^verbatim>\<open>struct.pack(">H", x)\<close> for \<open>x < 65536\<close>: the
  encoding that the decoder's contract refers to.
\<close>

definition pack_H :: "nat \<Rightarrow> byte list" where
  "pack_H x = [of_nat (x div 256), of_nat (x mod 256)]"

subsection \<open>Resolving a source address\<close>

definition get_name_by_ip :: "string \<Rightarrow> (string \<rightharpoonup> string) \<Rightarrow> string" where
  "get_name_by_ip ip addr_to_name = (case addr_to_name ip of None \<Rightarrow> ''am7p'' | Some n \<Rightarrow> n)"

subsection \<open>Publications\<close>

text \<open>
  What the bridge does to the outside world, in the order it does it. \<open>Discovery name\<close>
  stands for the nine retained configuration messages of \<^verbatim>\<open>publish_discovery\<close>, whose
  topics and payloads depend on the name only; \<open>State name m\<close> is the measurement on the
  state topic of \<open>name\<close> (not retained); \<open>Age name a\<close> and \<open>Online name b\<close> are the two
  retained messages of \<^verbatim>\<open>publish_meta\<close>. \<open>Sock_close\<close> and \<open>Loop_stop\<close> release
  the socket and the client.
\<close>

datatype event =
    Discovery string
  | State string measurement
  | Age string int
  | Online string bool
  | Sock_close
  | Loop_stop

definition publish_discovery :: "string \<Rightarrow> event list" where
  "publish_discovery name = [Discovery name]"

definition publish_state :: "string \<Rightarrow> measurement \<Rightarrow> event list" where
  "publish_state name payload = [State name payload]"

definition publish_meta :: "string \<Rightarrow> int \<Rightarrow> bool \<Rightarrow> event list" where
  "publish_meta name age_s online = [Age name age_s, Online name online]"

subsection \<open>Liveness\<close>

text \<open>\<^verbatim>\<open>int(x)\<close> on a float: truncation towards zero.\<close>

definition py_int :: "rat \<Rightarrow> int" where
  "py_int q = (if q < 0 then \<lceil>q\<rceil> else \<lfloor>q\<rfloor>)"

text \<open>
  The expression \<^verbatim>\<open>int(now - ts) if ts else 999999\<close> of the sweep and of the exit
  handler: \<open>ts\<close> is tested for being non-zero.
\<close>

definition age_of :: "rat \<Rightarrow> rat \<Rightarrow> int" where
  "age_of ts now = (if ts \<noteq> 0 then py_int (now - ts) else 999999)"

text \<open>
  The liveness computation of the sweep. Its first argument is the variable
  \<^verbatim>\<open>ts\<close>, in which the value \<open>0\<close> stands for a timestamp that was never recorded.
\<close>

definition evaluate :: "rat \<Rightarrow> rat \<Rightarrow> int \<Rightarrow> int \<times> bool" where
  "evaluate ts now online_timeout =
     (let age = age_of ts now;
          online = (ts \<noteq> 0 \<and> age \<le> online_timeout)
      in (age, online))"

text \<open>
  The contract of the liveness evaluator as the specification words it, for comparison:
  a sentinel when the timestamp is absent, otherwise the floor of the difference, a
  negative value clamped to zero.
\<close>

definition evaluate_spec :: "rat option \<Rightarrow> rat \<Rightarrow> int \<Rightarrow> int \<times> bool" where
  "evaluate_spec last_seen_at now online_timeout =
     (case last_seen_at of
        None \<Rightarrow> (999999, False)
      | Some t \<Rightarrow> (let age = max 0 \<lfloor>now - t\<rfloor> in (age, age \<le> online_timeout)))"

subsection \<open>Configuration and state of the bridge\<close>

record config =
  online_timeout_s :: int
  meta_publish_every_s :: int
  addr_to_name :: "string \<rightharpoonup> string"

text \<open>
  The local variables of \<^verbatim>\<open>main\<close> that outlive an iteration. The set
  \<^verbatim>\<open>known_names\<close> is kept as a list without duplicates, in the order of insertion;
  Python leaves the order in which a set is iterated open.
\<close>

record bridge =
  known_names :: "string list"
  last_packet_ts :: "string \<rightharpoonup> rat"
  next_meta_ts :: rat

definition initial :: "config \<Rightarrow> rat \<Rightarrow> bridge" where
  "initial cfg t0 =
     \<lparr> known_names = [], last_packet_ts = Map.empty,
       next_meta_ts = t0 + of_int (meta_publish_every_s cfg) \<rparr>"

text \<open>\<^verbatim>\<open>last_packet_ts.get(name, 0.0)\<close>\<close>

definition get_ts :: "bridge \<Rightarrow> string \<Rightarrow> rat" where
  "get_ts s name = (case last_packet_ts s name of None \<Rightarrow> 0 | Some t \<Rightarrow> t)"

subsection \<open>Registry update\<close>

text \<open>
  What a decoded packet does to the registry: the test \<^verbatim>\<open>name not in known_names\<close>,
  the insertion into the set and the assignment \<^verbatim>\<open>last_packet_ts[name] = now\<close>. The
  first component reports whether the name was new.
\<close>

definition record_packet :: "string \<Rightarrow> rat \<Rightarrow> bridge \<Rightarrow> bool \<times> bridge" where
  "record_packet name now s =
     (name \<notin> set (known_names s),
      s \<lparr> known_names :=
            (if name \<notin> set (known_names s) then known_names s @ [name] else known_names s),
          last_packet_ts := (last_packet_ts s)(name \<mapsto> now) \<rparr>)"

fun record_packets :: "(string \<times> rat) list \<Rightarrow> bridge \<Rightarrow> bridge" where
  "record_packets [] s = s"
| "record_packets ((name, now) # calls) s = record_packets calls (snd (record_packet name now s))"

subsection \<open>The bridge loop\<close>

text \<open>
  What \<^verbatim>\<open>sock.recvfrom\<close> does in one iteration: it returns a datagram with the
  sender's address, raises \<^verbatim>\<open>socket.timeout\<close>, is interrupted from the keyboard
  (\<^verbatim>\<open>KeyboardInterrupt\<close>), or raises another exception. The last two leave the
  loop for the handlers of the outer \<^verbatim>\<open>try\<close>.
\<close>

datatype rx = Datagram "byte list" string | Timeout | Interrupt | Fault

datatype stop_reason = Keyboard_interrupt | Fatal_error

text \<open>
  The body of the inner \<^verbatim>\<open>try\<close> after a datagram has arrived. The source
  assigns the timestamp after the two publications; no publication reads the registry,
  so the model makes the assignment together with the insertion of the name.
\<close>

definition handle_datagram ::
  "config \<Rightarrow> rat \<Rightarrow> byte list \<Rightarrow> string \<Rightarrow> bridge \<Rightarrow> bridge \<times> stop_reason option \<times> event list"
where
  "handle_datagram cfg now data ip s =
     (let name = get_name_by_ip ip (addr_to_name cfg) in
      case parse_packet data of
        Inl e \<Rightarrow> (s, Some Fatal_error, [])
      | Inr None \<Rightarrow> (s, None, [])
      | Inr (Some payload) \<Rightarrow>
          (case record_packet name now s of
             (is_new, s') \<Rightarrow>
               (s', None,
                (if is_new then publish_discovery name else []) @ publish_state name payload)))"

text \<open>The \<^verbatim>\<open>for\<close> loop of the periodic publication.\<close>

definition sweep :: "config \<Rightarrow> rat \<Rightarrow> bridge \<Rightarrow> event list" where
  "sweep cfg now s =
     concat (map (\<lambda>name.
       case evaluate (get_ts s name) now (online_timeout_s cfg) of
         (age, online) \<Rightarrow> publish_meta name age online) (known_names s))"

definition periodic :: "config \<Rightarrow> rat \<Rightarrow> bridge \<Rightarrow> bridge \<times> event list" where
  "periodic cfg now s =
     (if next_meta_ts s \<le> now
      then (s \<lparr> next_meta_ts := now + of_int (meta_publish_every_s cfg) \<rparr>, sweep cfg now s)
      else (s, []))"

text \<open>
  One iteration of \<^verbatim>\<open>while True\<close>, given the reading of the clock at its start and
  the outcome of the receive call. An exception other than the timeout leaves the loop.
\<close>

definition iteration ::
  "config \<Rightarrow> rat \<times> rx \<Rightarrow> bridge \<Rightarrow> bridge \<times> stop_reason option \<times> event list"
where
  "iteration cfg inp s =
     (case inp of (now, r) \<Rightarrow>
        (case r of
           Interrupt \<Rightarrow> (s, Some Keyboard_interrupt, [])
         | Fault \<Rightarrow> (s, Some Fatal_error, [])
         | Timeout \<Rightarrow> (case periodic cfg now s of (s', evs) \<Rightarrow> (s', None, evs))
         | Datagram data ip \<Rightarrow>
             (case handle_datagram cfg now data ip s of
                (s1, Some e, evs) \<Rightarrow> (s1, Some e, evs)
              | (s1, None, evs) \<Rightarrow>
                  (case periodic cfg now s1 of (s2, evs2) \<Rightarrow> (s2, None, evs @ evs2)))))"

text \<open>
  The loop over the iterations that the environment drives: it ends with the state, the
  reason why the loop was left (\<open>None\<close> while it is still running) and the trace.
\<close>

fun loop ::
  "config \<Rightarrow> (rat \<times> rx) list \<Rightarrow> bridge \<Rightarrow> bridge \<times> stop_reason option \<times> event list"
where
  "loop cfg [] s = (s, None, [])"
| "loop cfg (inp # inps) s =
     (case iteration cfg inp s of
        (s1, Some e, evs) \<Rightarrow> (s1, Some e, evs)
      | (s1, None, evs) \<Rightarrow>
          (case loop cfg inps s1 of (s2, stop, evs2) \<Rightarrow> (s2, stop, evs @ evs2)))"

text \<open>
  The \<^verbatim>\<open>finally\<close> block, entered at time \<open>now\<close>: its first \<^verbatim>\<open>try\<close>
  publishes every known name as offline, the second closes the socket, the third stops
  the client.
\<close>

definition mark_offline :: "rat \<Rightarrow> bridge \<Rightarrow> event list" where
  "mark_offline now s =
     concat (map (\<lambda>name. publish_meta name (age_of (get_ts s name) now) False) (known_names s))"

definition shutdown :: "rat \<Rightarrow> bridge \<Rightarrow> event list" where
  "shutdown now s = mark_offline now s @ [Sock_close] @ [Loop_stop]"

text \<open>
  \<^verbatim>\<open>main\<close> after the connections are made: \<open>t0\<close> is the clock when the first
  periodic publication is scheduled, \<open>t_exit\<close> the clock in the \<^verbatim>\<open>finally\<close> block.
\<close>

definition main ::
  "config \<Rightarrow> rat \<Rightarrow> (rat \<times> rx) list \<Rightarrow> rat \<Rightarrow> stop_reason option \<times> event list"
where
  "main cfg t0 inps t_exit =
     (case loop cfg inps (initial cfg t0) of
        (s, None, evs) \<Rightarrow> (None, evs)
      | (s, Some e, evs) \<Rightarrow> (Some e, evs @ shutdown t_exit s))"

text \<open>The messages of \<^verbatim>\<open>publish_meta\<close>.\<close>

definition is_meta :: "event \<Rightarrow> bool" where
  "is_meta e = (case e of Age n a \<Rightarrow> True | Online n b \<Rightarrow> True | _ \<Rightarrow> False)"

text \<open>
  A trace announces well, from a set of names already announced, when a discovery
  comes for a name not yet announced and is followed at once by a measurement of that
  name, and a measurement comes for an announced name only.
\<close>

fun announces_well :: "string set \<Rightarrow> event list \<Rightarrow> bool" where
  "announces_well K [] = True"
| "announces_well K (Discovery n # es) =
     (n \<notin> K \<and> (case es of State n' m # es' \<Rightarrow> n' = n | _ \<Rightarrow> False)
      \<and> announces_well (insert n K) es)"
| "announces_well K (State n m # es) = (n \<in> K \<and> announces_well K es)"
| "announces_well K (e # es) = announces_well K es"

text \<open>
  What the contract of the ingest step asks of a run, as a function of what the loop
  receives: a datagram that decodes publishes its measurement, preceded by the discovery
  of its name when no earlier datagram of the run decoded for that name; anything else
  publishes nothing, and nothing follows an interrupt or a fault. \<open>K\<close> is the set of
  names announced so far. \<open>decoded_names\<close> are the names for which some datagram of a
  list decodes, and \<open>running\<close> says that a list holds no interrupt and no fault.
\<close>

fun expected_announcements :: "config \<Rightarrow> string set \<Rightarrow> (rat \<times> rx) list \<Rightarrow> event list" where
  "expected_announcements cfg K [] = []"
| "expected_announcements cfg K ((now, Datagram data ip) # inps) =
     (case parse_packet data of
        Inl e \<Rightarrow> []
      | Inr None \<Rightarrow> expected_announcements cfg K inps
      | Inr (Some m) \<Rightarrow>
          (let name = get_name_by_ip ip (addr_to_name cfg) in
           (if name \<in> K then [State name m] else [Discovery name, State name m])
             @ expected_announcements cfg (insert name K) inps))"
| "expected_announcements cfg K ((now, Timeout) # inps) = expected_announcements cfg K inps"
| "expected_announcements cfg K ((now, Interrupt) # inps) = []"
| "expected_announcements cfg K ((now, Fault) # inps) = []"

fun decoded_name :: "config \<Rightarrow> rat \<times> rx \<Rightarrow> string option" where
  "decoded_name cfg (now, Datagram data ip) =
     (case parse_packet data of
        Inr (Some m) \<Rightarrow> Some (get_name_by_ip ip (addr_to_name cfg))
      | _ \<Rightarrow> None)"
| "decoded_name cfg (now, r) = None"

definition decoded_names :: "config \<Rightarrow> (rat \<times> rx) list \<Rightarrow> string set" where
  "decoded_names cfg inps = Option.these (decoded_name cfg ` set inps)"

definition running :: "(rat \<times> rx) list \<Rightarrow> bool" where
  "running inps = list_all (\<lambda>inp. snd inp \<noteq> Interrupt \<and> snd inp \<noteq> Fault) inps"

text \<open>
  Every recorded timestamp is at most \<open>b\<close>; and the invariant of the loop that relates
  the timestamps to the time of the next periodic publication.
\<close>

definition ts_bounded :: "bridge \<Rightarrow> rat \<Rightarrow> bool" where
  "ts_bounded s b = (\<forall>t \<in> ran (last_packet_ts s). t \<le> b)"

definition ts_inv :: "bridge \<Rightarrow> bool" where
  "ts_inv s = (ts_bounded s (next_meta_ts s) \<and> dom (last_packet_ts s) = set (known_names s))"

section \<open>Division of integers in binary64\<close>

lemma round_half_even_error: "\<bar>of_int (round_half_even x) - x\<bar> \<le> 1 / 2"
proof -
  have "of_int \<lfloor>x\<rfloor> \<le> x" "x < of_int \<lfloor>x\<rfloor> + 1"
    by linarith+
  then show ?thesis
    by (auto simp: round_half_even_def Let_def)
qed

lemma round_half_even_of_int: "round_half_even (of_int z) = z"
  by (simp add: round_half_even_def)

lemma bitlen_rat_bounds:
  assumes "0 < n"
  shows "(2 :: rat) powi (bitlen n - 1) \<le> of_int n" "(of_int n :: rat) < 2 powi (bitlen n)"
proof -
  from assms have p: "1 \<le> bitlen n"
    using bitlen_eq_zero_iff [of n] bitlen_nonneg [of n] by linarith
  from bitlen_bounds [OF assms]
  have a: "2 ^ nat (bitlen n - 1) \<le> n" and b: "n < 2 ^ nat (bitlen n)"
    by simp_all
  from a have "(of_int (2 ^ nat (bitlen n - 1)) :: rat) \<le> of_int n"
    by (simp only: of_int_le_iff)
  with p show "(2 :: rat) powi (bitlen n - 1) \<le> of_int n"
    by (simp add: power_int_nonneg_exp)
  from b have "(of_int n :: rat) < of_int (2 ^ nat (bitlen n))"
    by (simp only: of_int_less_iff)
  with p show "(of_int n :: rat) < 2 powi (bitlen n)"
    by (simp add: power_int_nonneg_exp)
qed

lemma ilog2_bounds:
  assumes "0 < n" "0 < d"
  shows "(2 :: rat) powi (ilog2 n d) \<le> of_int n / of_int d"
    "(of_int n / of_int d :: rat) < 2 powi (ilog2 n d + 1)"
proof -
  let ?q = "of_int n / of_int d :: rat"
  let ?k = "bitlen n - bitlen d"
  note bn = bitlen_rat_bounds [OF assms(1)] and bd = bitlen_rat_bounds [OF assms(2)]
  have pos: "(0 :: rat) < of_int n" "(0 :: rat) < of_int d"
    using assms by simp_all
  have "?q < 2 powi (bitlen n) / 2 powi (bitlen d - 1)"
    using pos bn(2) bd(1) by (intro frac_less) simp_all
  also have "\<dots> = 2 powi (?k + 1)"
    by (simp add: power_int_diff [symmetric] algebra_simps)
  finally have up: "?q < 2 powi (?k + 1)" .
  have "(2 :: rat) powi (?k - 1) = 2 powi (bitlen n - 1) / 2 powi (bitlen d)"
    by (simp add: power_int_diff [symmetric] algebra_simps)
  also have "\<dots> < ?q"
    using pos bn(1) bd(2) by (intro frac_less2) simp_all
  finally have lo: "(2 :: rat) powi (?k - 1) < ?q" .
  show "(2 :: rat) powi (ilog2 n d) \<le> ?q"
    using lo by (simp add: ilog2_def Let_def)
  show "?q < 2 powi (ilog2 n d + 1)"
    using up by (simp add: ilog2_def Let_def not_le)
qed

lemma half_ulp_bound:
  assumes "(2 :: rat) powi l \<le> q"
  shows "1 / 2 * (2 :: rat) powi (l - 52) \<le> q / 2 ^ 53"
proof -
  define P where "P = (2 :: rat) powi (l - 52)"
  define c where "c = (2 :: rat) ^ 52"
  have c: "0 < c" "(2 :: rat) ^ 53 = 2 * c"
    by (simp_all add: c_def)
  have "(2 :: rat) powi l = 2 powi ((l - 52) + 52)"
    by simp
  also have "\<dots> = P * c"
    unfolding P_def c_def by (subst power_int_add) simp_all
  finally have "P * c \<le> q"
    using assms by simp
  then have "1 / 2 * P \<le> q / (2 * c)"
    using c(1) by (simp add: field_simps)
  then show ?thesis
    by (simp only: P_def c(2))
qed

lemma py_truediv_error:
  assumes "a \<noteq> 0" "b \<noteq> 0"
  shows "\<bar>py_truediv a b - of_int a / of_int b\<bar> \<le> \<bar>of_int a / of_int b\<bar> / 2 ^ 53"
proof -
  let ?q = "of_int a / of_int b :: rat"
  let ?l = "ilog2 \<bar>a\<bar> \<bar>b\<bar>"
  let ?e = "?l - 52"
  let ?y = "\<bar>?q\<bar> / 2 powi ?e"
  let ?m = "round_half_even ?y"
  from assms have pa: "0 < \<bar>a\<bar>" "0 < \<bar>b\<bar>"
    by simp_all
  have absq: "\<bar>?q\<bar> = of_int \<bar>a\<bar> / of_int \<bar>b\<bar>"
    by simp
  from ilog2_bounds(1) [OF pa] absq have lo: "(2 :: rat) powi ?l \<le> \<bar>?q\<bar>"
    by simp
  have e: "(0 :: rat) < 2 powi ?e"
    by simp
  have r: "py_truediv a b = sgn ?q * of_int ?m * 2 powi ?e"
    using assms(1) by (simp add: py_truediv_def Let_def)
  have "py_truediv a b - ?q = sgn ?q * ((of_int ?m - ?y) * 2 powi ?e)"
  proof -
    have "?y * 2 powi ?e = \<bar>?q\<bar>"
      using e by simp
    then have "sgn ?q * ((of_int ?m - ?y) * 2 powi ?e) =
        sgn ?q * of_int ?m * 2 powi ?e - sgn ?q * \<bar>?q\<bar>"
      by (simp only: left_diff_distrib right_diff_distrib mult.assoc)
    also have "sgn ?q * \<bar>?q\<bar> = ?q"
      by (fact sgn_mult_abs)
    finally show ?thesis
      by (simp only: r)
  qed
  then have "\<bar>py_truediv a b - ?q\<bar> = \<bar>sgn ?q\<bar> * (\<bar>of_int ?m - ?y\<bar> * 2 powi ?e)"
    by (simp add: abs_mult)
  also have "\<dots> \<le> 1 * (1 / 2 * 2 powi ?e)"
  proof (rule mult_mono)
    show "\<bar>sgn ?q\<bar> \<le> 1"
      by (simp only: abs_sgn_eq split: if_splits) simp
    show "\<bar>of_int ?m - ?y\<bar> * 2 powi ?e \<le> 1 / 2 * 2 powi ?e"
      using round_half_even_error [of ?y] less_imp_le [OF e] by (rule mult_right_mono)
    show "(0 :: rat) \<le> 1"
      by simp
    show "0 \<le> \<bar>of_int ?m - ?y\<bar> * 2 powi ?e"
      using less_imp_le [OF e] by (intro mult_nonneg_nonneg abs_ge_zero)
  qed
  also have "\<dots> = 1 / 2 * 2 powi ?e"
    by (simp only: mult_1)
  also have "\<dots> \<le> \<bar>?q\<bar> / 2 ^ 53"
    using lo by (rule half_ulp_bound)
  finally show ?thesis .
qed

lemma py_truediv_exact:
  assumes "b \<noteq> 0" and q: "of_int a / of_int b = (of_int m :: rat) * 2 powi j"
    and m: "\<bar>m\<bar> < 2 ^ 53"
  shows "py_truediv a b = of_int a / of_int b"
proof (cases "a = 0")
  case True
  then show ?thesis by (simp add: py_truediv_def)
next
  case False
  let ?q = "of_int a / of_int b :: rat"
  let ?l = "ilog2 \<bar>a\<bar> \<bar>b\<bar>"
  let ?e = "?l - 52"
  from False assms(1) have pa: "0 < \<bar>a\<bar>" "0 < \<bar>b\<bar>"
    by simp_all
  have absq: "\<bar>?q\<bar> = of_int \<bar>a\<bar> / of_int \<bar>b\<bar>"
    by simp
  from ilog2_bounds(1) [OF pa] absq have lo: "(2 :: rat) powi ?l \<le> \<bar>?q\<bar>"
    by simp
  have aq: "\<bar>?q\<bar> = of_int \<bar>m\<bar> * 2 powi j"
    by (simp add: q abs_mult power_int_abs)
  have "(of_int \<bar>m\<bar> :: rat) < of_int (2 ^ 53)"
    using m by (simp only: of_int_less_iff)
  then have "(of_int \<bar>m\<bar> :: rat) < 2 powi 53"
    by simp
  then have "\<bar>?q\<bar> < 2 powi 53 * 2 powi j"
    unfolding aq by (intro mult_strict_right_mono) simp_all
  also have "\<dots> = 2 powi (53 + j)"
    by (simp add: power_int_add)
  finally have "\<bar>?q\<bar> < 2 powi (53 + j)" .
  with lo have lt: "(2 :: rat) powi ?l < 2 powi (53 + j)"
    by (rule le_less_trans)
  have "?l < 53 + j"
  proof (rule ccontr)
    assume "\<not> ?l < 53 + j"
    then have "(2 :: rat) powi (53 + j) \<le> 2 powi ?l"
      by (intro power_int_increasing) simp_all
    with lt show False
      by linarith
  qed
  then have ej: "0 \<le> j - ?e"
    by simp
  have "\<bar>?q\<bar> / 2 powi ?e = of_int \<bar>m\<bar> * 2 powi (j - ?e)"
    unfolding aq by (simp add: power_int_diff)
  also have "\<dots> = of_int (\<bar>m\<bar> * 2 ^ nat (j - ?e))"
    using ej by (simp add: power_int_nonneg_exp)
  finally have y: "\<bar>?q\<bar> / 2 powi ?e = of_int (\<bar>m\<bar> * 2 ^ nat (j - ?e))" .
  have "py_truediv a b = sgn ?q * of_int (round_half_even (\<bar>?q\<bar> / 2 powi ?e)) * 2 powi ?e"
    using False by (simp add: py_truediv_def Let_def)
  also have "\<dots> = sgn ?q * (\<bar>?q\<bar> / 2 powi ?e) * 2 powi ?e"
    by (simp only: y round_half_even_of_int)
  also have "\<dots> = sgn ?q * \<bar>?q\<bar>"
    by simp
  also have "\<dots> = ?q"
    by (fact sgn_mult_abs)
  finally show ?thesis .
qed



lemma py_truediv_0: "py_truediv 0 b = 0"
  by (simp add: py_truediv_def)

lemma sgn_is_int: "\<exists>k :: int. sgn (x :: rat) = of_int k"
proof (cases "x = 0")
  case True
  then have "sgn x = of_int 0" by simp
  then show ?thesis by blast
next
  case False
  show ?thesis
  proof (cases "x < 0")
    case True
    then have "sgn x = of_int (- 1)" by simp
    then show ?thesis by blast
  next
    case False
    with \<open>x \<noteq> 0\<close> have "sgn x = of_int 1" by simp
    then show ?thesis by blast
  qed
qed

lemma py_truediv_dyadic:
  "\<exists>n e. py_truediv a b = of_int n * 2 powi e"
proof (cases "a = 0")
  case True
  then have "py_truediv a b = of_int 0 * 2 powi 0"
    by (simp add: py_truediv_def)
  then show ?thesis by blast
next
  case False
  let ?q = "of_int a / of_int b :: rat"
  let ?e = "ilog2 \<bar>a\<bar> \<bar>b\<bar> - 52"
  let ?m = "round_half_even (\<bar>?q\<bar> / 2 powi ?e)"
  obtain k :: int where s: "sgn ?q = of_int k"
    using sgn_is_int by blast
  have "py_truediv a b = sgn ?q * of_int ?m * 2 powi ?e"
    using False by (simp add: py_truediv_def Let_def)
  also have "\<dots> = of_int (k * ?m) * 2 powi ?e"
    by (simp only: s of_int_mult)
  finally show ?thesis by blast
qed

lemma dyadic_hundredth:
  assumes "(of_int a :: rat) / 100 = of_int n * 2 powi e"
  shows "25 dvd a"
proof (cases "0 \<le> e")
  case True
  then have "(of_int a :: rat) = of_int (100 * (n * 2 ^ nat e))"
    using assms by (simp add: power_int_nonneg_exp field_simps)
  then have "a = 100 * (n * 2 ^ nat e)"
    by (simp only: of_int_eq_iff)
  then show ?thesis by simp
next
  case False
  then have e: "e = - int (nat (- e))"
    by simp
  have "(2 :: rat) powi e = 1 / 2 ^ nat (- e)"
    by (subst e) (simp only: power_int_minus_divide power_int_of_nat)
  with assms have "(of_int a :: rat) * 2 ^ nat (- e) = 100 * of_int n"
    by (simp add: field_simps)
  then have "(of_int (a * 2 ^ nat (- e)) :: rat) = of_int (100 * n)"
    by simp
  then have "a * 2 ^ nat (- e) = 100 * n"
    by (simp only: of_int_eq_iff)
  then have "25 dvd a * 2 ^ nat (- e)"
    by simp
  moreover have "coprime (25 :: int) (2 ^ nat (- e))"
    by (intro coprime_power_right_iff [THEN iffD2] disjI1) simp
  ultimately show ?thesis
    by (simp only: coprime_dvd_mult_left_iff)
qed

lemma py_truediv_100_exact_iff:
  assumes "\<bar>a\<bar> < 2 ^ 53"
  shows "py_truediv a 100 = of_int a / 100 \<longleftrightarrow> 25 dvd a"
proof
  assume eq: "py_truediv a 100 = of_int a / 100"
  from py_truediv_dyadic [of a 100] obtain n e where "py_truediv a 100 = of_int n * 2 powi e"
    by blast
  with eq have "(of_int a :: rat) / 100 = of_int n * 2 powi e"
    by simp
  then show "25 dvd a"
    by (rule dyadic_hundredth)
next
  assume "25 dvd a"
  then obtain c where c: "a = 25 * c"
    by (auto simp: dvd_def)
  with assms have cb: "\<bar>c\<bar> < 2 ^ 53"
    by (simp add: abs_mult)
  have "(of_int a :: rat) / of_int 100 = of_int c * 2 powi (- 2)"
    by (simp add: c)
  from py_truediv_exact [OF _ this cb] show "py_truediv a 100 = of_int a / 100"
    by simp
qed

lemma py_truediv_100_error:
  "\<bar>py_truediv a 100 - of_int a / 100\<bar> \<le> \<bar>of_int a / 100\<bar> / 2 ^ 53"
proof (cases "a = 0")
  case True
  then show ?thesis by (simp add: py_truediv_0)
next
  case False
  from py_truediv_error [OF False, of 100] show ?thesis
    by simp
qed

lemma py_truediv_values:
  "py_truediv 1 100 = 5764607523034235 / 576460752303423488"
  "py_truediv 65535 100 = 5764519562104013 / 8796093022208"
  "py_truediv 62035 100 = 5456656306326733 / 8796093022208"
  "py_truediv (- 3500) 100 = - 35"
  "py_truediv 150 100 = 3 / 2"
  "py_truediv 250 100 = 5 / 2"
  "py_truediv 300 100 = 3"
  "py_truediv 6000 100 = 60"
  by code_simp+

section \<open>The packet decoder\<close>

lemma u16_pack:
  "x < 65536 \<Longrightarrow>
   uint (of_nat (x div 256) :: byte) * 256 + uint (of_nat (x mod 256) :: byte) = int x"
  by (simp add: uint_nat unat_of_nat zdiv_int zmod_int)

lemma u16_be_packed:
  assumes "take 14 buf = pack_H x0 @ pack_H x1 @ pack_H x2 @ pack_H x3 @ pack_H x4 @ pack_H x5 @ pack_H x6"
    and "x0 < 65536" "x1 < 65536" "x2 < 65536" "x3 < 65536" "x4 < 65536" "x5 < 65536" "x6 < 65536"
  shows "u16_be buf 0 = int x0" "u16_be buf 2 = int x1" "u16_be buf 4 = int x2"
    "u16_be buf 6 = int x3" "u16_be buf 8 = int x4" "u16_be buf 10 = int x5" "u16_be buf 12 = int x6"
proof -
  have nth: "buf ! k = (pack_H x0 @ pack_H x1 @ pack_H x2 @ pack_H x3 @ pack_H x4 @ pack_H x5 @ pack_H x6) ! k"
    if "k < 14" for k
    using that assms(1) by (metis nth_take)
  show "u16_be buf 0 = int x0" "u16_be buf 2 = int x1" "u16_be buf 4 = int x2"
    "u16_be buf 6 = int x3" "u16_be buf 8 = int x4" "u16_be buf 10 = int x5" "u16_be buf 12 = int x6"
    using assms(2-) by (simp_all add: u16_be_def nth pack_H_def u16_pack)
qed

text \<open>
  Claim C1, as stated, fails: the scaled fields are binary64 quotients, not exact
  rationals. With the raw value 1 in the third position the decoder returns
  \<open>hcho = 5764607523034235 / 576460752303423488\<close>, the float nearest to \<open>1 / 100\<close>,
  which is not \<open>1 / 100\<close>.
\<close>

theorem decode_fields_counterexample:
  "parse_packet (replicate 23 0 @ pack_H 10 @ pack_H 20 @ pack_H 1 @ pack_H 250 @ pack_H 800
                   @ pack_H 3800 @ pack_H 6000) = Inr (Some \<lparr>
       pm25 = 10, pm10 = 20, hcho = 5764607523034235 / 576460752303423488, tvoc = 5 / 2,
       co2 = 800, temperature = 3, humidity = 60 \<rparr>)
   \<and> (5764607523034235 / 576460752303423488 :: rat) \<noteq> 1 / 100"
  by (simp add: parse_packet_def unpack_from_7H_def u16_be_def pack_H_def py_truediv_values)

text \<open>
  Claim C1, amended. A buffer of at least 37 bytes whose bytes 23 to 36 are the
  big-endian encoding of seven unsigned 16-bit integers \<open>x0\<close> to \<open>x6\<close> decodes to the
  measurement with \<open>pm25 = x0\<close>, \<open>pm10 = x1\<close> and \<open>co2 = x4\<close> exactly, and with
  \<open>hcho\<close>, \<open>tvoc\<close>, \<open>temperature\<close> and \<open>humidity\<close> the float quotients of \<open>x2\<close>,
  \<open>x3\<close>, \<open>x5 - 3500\<close> and \<open>x6\<close> by 100. Such a quotient is within a relative error
  of \<open>2^-53\<close> of the exact rational, and equals it exactly when, and only when, the
  dividend is a multiple of 25. In particular a packet of any 23 header bytes followed
  by the values 10, 20, 150, 250, 800, 3800, 6000 decodes to 10, 20, 1.5, 2.5, 800, 3.0,
  60.0 exactly.
\<close>

theorem decode_fields:
  "(37 \<le> length data \<and>
    take 14 (drop 23 data) =
      pack_H x0 @ pack_H x1 @ pack_H x2 @ pack_H x3 @ pack_H x4 @ pack_H x5 @ pack_H x6 \<and>
    x0 < 65536 \<and> x1 < 65536 \<and> x2 < 65536 \<and> x3 < 65536 \<and> x4 < 65536 \<and> x5 < 65536 \<and> x6 < 65536
    \<longrightarrow> parse_packet data = Inr (Some \<lparr>
          pm25 = int x0, pm10 = int x1,
          hcho = py_truediv (int x2) 100, tvoc = py_truediv (int x3) 100,
          co2 = int x4,
          temperature = py_truediv (int x5 - 3500) 100, humidity = py_truediv (int x6) 100 \<rparr>))
   \<and> \<bar>py_truediv a 100 - of_int a / 100\<bar> \<le> \<bar>of_int a / 100\<bar> / 2 ^ 53
   \<and> (\<bar>a\<bar> < 2 ^ 53 \<longrightarrow> (py_truediv a 100 = of_int a / 100 \<longleftrightarrow> 25 dvd a))
   \<and> (length header = 23 \<longrightarrow>
        parse_packet (header @ pack_H 10 @ pack_H 20 @ pack_H 150 @ pack_H 250 @ pack_H 800
                        @ pack_H 3800 @ pack_H 6000) = Inr (Some \<lparr>
          pm25 = 10, pm10 = 20, hcho = 3 / 2, tvoc = 5 / 2,
          co2 = 800, temperature = 3, humidity = 60 \<rparr>))"
proof (intro conjI impI)
  assume h: "37 \<le> length data \<and>
    take 14 (drop 23 data) =
      pack_H x0 @ pack_H x1 @ pack_H x2 @ pack_H x3 @ pack_H x4 @ pack_H x5 @ pack_H x6 \<and>
    x0 < 65536 \<and> x1 < 65536 \<and> x2 < 65536 \<and> x3 < 65536 \<and> x4 < 65536 \<and> x5 < 65536 \<and> x6 < 65536"
  then have "37 \<le> length data" by (rule conjunct1)
  then have len: "\<not> length data < 23 + 14" "\<not> length (drop 23 data) < 14"
    by simp_all
  note f = u16_be_packed [of "drop 23 data" x0 x1 x2 x3 x4 x5 x6]
  from h have x: "unpack_from_7H (drop 23 data) =
      Inr [int x0, int x1, int x2, int x3, int x4, int x5, int x6]"
    unfolding unpack_from_7H_def using len(2) by (simp add: f)
  show "parse_packet data = Inr (Some \<lparr>
          pm25 = int x0, pm10 = int x1,
          hcho = py_truediv (int x2) 100, tvoc = py_truediv (int x3) 100,
          co2 = int x4,
          temperature = py_truediv (int x5 - 3500) 100, humidity = py_truediv (int x6) 100 \<rparr>)"
    unfolding parse_packet_def using len(1) by (simp add: x)
next
  show "\<bar>py_truediv a 100 - of_int a / 100\<bar> \<le> \<bar>of_int a / 100\<bar> / 2 ^ 53"
    by (rule py_truediv_100_error)
next
  assume "\<bar>a\<bar> < 2 ^ 53"
  then show "py_truediv a 100 = of_int a / 100 \<longleftrightarrow> 25 dvd a"
    by (rule py_truediv_100_exact_iff)
next
  assume "length header = 23"
  then show "parse_packet (header @ pack_H 10 @ pack_H 20 @ pack_H 150 @ pack_H 250 @ pack_H 800
                        @ pack_H 3800 @ pack_H 6000) = Inr (Some \<lparr>
          pm25 = 10, pm10 = 20, hcho = 3 / 2, tvoc = 5 / 2,
          co2 = 800, temperature = 3, humidity = 60 \<rparr>)"
    by (simp add: parse_packet_def unpack_from_7H_def u16_be_def pack_H_def py_truediv_values)
qed

text \<open>
  Claim C3. A buffer of fewer than 37 bytes is rejected: \<^verbatim>\<open>parse_packet\<close> returns
  \<^verbatim>\<open>None\<close>, neither a measurement nor an exception.
\<close>

theorem decode_short_rejected:
  "length data < 37 \<Longrightarrow> parse_packet data = Inr None"
  by (simp add: parse_packet_def)

lemma u16_be_take:
  "k + 1 < n \<Longrightarrow> u16_be (take n buf) k = u16_be buf k"
  by (simp add: u16_be_def)

lemma unpack_from_7H_take:
  "14 \<le> length buf \<Longrightarrow> unpack_from_7H buf = unpack_from_7H (take 14 buf)"
  by (simp add: unpack_from_7H_def u16_be_take)

text \<open>
  Claim C9. A buffer of at least 37 bytes is always decoded: the result is a complete
  measurement, never a rejection and never an exception, and it is the same for any two
  such buffers that agree on bytes 23 to 36, whatever the header and the trailing bytes.
  A buffer is rejected exactly when it is shorter than 37 bytes.
\<close>

theorem decode_long_succeeds:
  "37 \<le> length data \<Longrightarrow>
     (\<exists>m. parse_packet data = Inr (Some m))
     \<and> parse_packet data \<noteq> Inr None
     \<and> (\<forall>e. parse_packet data \<noteq> Inl e)
     \<and> (\<forall>data'. 37 \<le> length data' \<and> take 14 (drop 23 data') = take 14 (drop 23 data)
            \<longrightarrow> parse_packet data' = parse_packet data)
     \<and> (\<forall>d. parse_packet d = Inr None \<longleftrightarrow> length d < 37)"
proof (intro conjI allI impI)
  show "parse_packet d = Inr None \<longleftrightarrow> length d < 37" for d
    by (simp add: parse_packet_def unpack_from_7H_def)
  assume len: "37 \<le> length data"
  then have a: "\<not> length data < 23 + 14" and b: "\<not> length (drop 23 data) < 14"
    by simp_all
  show some: "\<exists>m. parse_packet data = Inr (Some m)"
    unfolding parse_packet_def unpack_from_7H_def using a b by simp
  then show "parse_packet data \<noteq> Inr None"
    by auto
  from some show "parse_packet data \<noteq> Inl e" for e
    by auto
  fix data' :: "byte list"
  assume h: "37 \<le> length data' \<and> take 14 (drop 23 data') = take 14 (drop 23 data)"
  then have "37 \<le> length data'" by (rule conjunct1)
  then have a': "\<not> length data' < 23 + 14" and b': "14 \<le> length (drop 23 data')"
    by simp_all
  from b have b2: "14 \<le> length (drop 23 data)"
    by simp
  have "unpack_from_7H (drop 23 data') = unpack_from_7H (drop 23 data)"
    using unpack_from_7H_take [OF b'] unpack_from_7H_take [OF b2] h by simp
  then show "parse_packet data' = parse_packet data"
    unfolding parse_packet_def using a a' by simp
qed

theorem decode_long_succeeds_witness:
  "37 \<le> length (replicate 40 (255 :: byte)) \<and>
   parse_packet (replicate 40 255) = Inr (Some \<lparr>
       pm25 = 65535, pm10 = 65535,
       hcho = 5764519562104013 / 8796093022208, tvoc = 5764519562104013 / 8796093022208,
       co2 = 65535,
       temperature = 5456656306326733 / 8796093022208,
       humidity = 5764519562104013 / 8796093022208 \<rparr>) \<and>
   parse_packet (replicate 40 255) \<noteq> Inr None \<and>
   parse_packet (replicate 37 255) = parse_packet (replicate 40 255)"
proof -
  have l: "37 \<le> length (replicate 40 (255 :: byte))"
    by simp
  have v: "parse_packet (replicate 40 255) = Inr (Some \<lparr>
       pm25 = 65535, pm10 = 65535,
       hcho = 5764519562104013 / 8796093022208, tvoc = 5764519562104013 / 8796093022208,
       co2 = 65535,
       temperature = 5456656306326733 / 8796093022208,
       humidity = 5764519562104013 / 8796093022208 \<rparr>)"
    by (simp add: parse_packet_def unpack_from_7H_def u16_be_def py_truediv_0 py_truediv_values)
  have t: "37 \<le> length (replicate 37 (255 :: byte)) \<and>
      take 14 (drop 23 (replicate 37 (255 :: byte))) = take 14 (drop 23 (replicate 40 255))"
    by simp
  from decode_long_succeeds [OF l] t l v show ?thesis
    by blast
qed

theorem decode_short_rejected_witness:
  "length (replicate 10 (0 :: byte)) < 37 \<and> parse_packet (replicate 10 0) = Inr None"
  using decode_short_rejected [of "replicate 10 0"] by simp

theorem decode_fields_witness:
  "length (replicate 23 (0 :: byte)) = 23 \<and>
   parse_packet (replicate 23 0 @ pack_H 10 @ pack_H 20 @ pack_H 150 @ pack_H 250 @ pack_H 800
                        @ pack_H 3800 @ pack_H 6000) = Inr (Some \<lparr>
          pm25 = 10, pm10 = 20, hcho = 3 / 2, tvoc = 5 / 2,
          co2 = 800, temperature = 3, humidity = 60 \<rparr>)
   \<and> \<bar>150 :: int\<bar> < 2 ^ 53 \<and> py_truediv 150 100 = 3 / 2"
proof -
  let ?d = "replicate 23 (0 :: byte) @ pack_H 10 @ pack_H 20 @ pack_H 150 @ pack_H 250 @ pack_H 800
                        @ pack_H 3800 @ pack_H 6000"
  have h: "37 \<le> length ?d \<and>
    take 14 (drop 23 ?d) =
      pack_H 10 @ pack_H 20 @ pack_H 150 @ pack_H 250 @ pack_H 800 @ pack_H 3800 @ pack_H 6000 \<and>
    (10 :: nat) < 65536 \<and> (20 :: nat) < 65536 \<and> (150 :: nat) < 65536 \<and> (250 :: nat) < 65536 \<and>
    (800 :: nat) < 65536 \<and> (3800 :: nat) < 65536 \<and> (6000 :: nat) < 65536"
    by (simp add: pack_H_def)
  have b: "\<bar>150 :: int\<bar> < 2 ^ 53" and d: "(25 :: int) dvd 150"
    by simp_all
  note t = decode_fields [of ?d 10 20 150 250 800 3800 6000 150 "replicate 23 0"]
  from t h have 1: "parse_packet ?d = Inr (Some \<lparr>
          pm25 = int 10, pm10 = int 20,
          hcho = py_truediv (int 150) 100, tvoc = py_truediv (int 250) 100,
          co2 = int 800,
          temperature = py_truediv (int 3800 - 3500) 100, humidity = py_truediv (int 6000) 100 \<rparr>)"
    by blast
  from t b d have 2: "py_truediv 150 100 = of_int 150 / 100"
    by blast
  from 1 2 b show ?thesis
    by (simp add: py_truediv_values)
qed

section \<open>Liveness\<close>

lemma py_int_mono: "a \<le> b \<Longrightarrow> py_int a \<le> py_int b"
proof -
  assume ab: "a \<le> b"
  have "\<lceil>a\<rceil> \<le> \<lfloor>b\<rfloor>" if "a < 0" "\<not> b < 0"
  proof -
    from that have "\<lceil>a\<rceil> \<le> 0" "0 \<le> \<lfloor>b\<rfloor>"
      by (simp_all add: ceiling_le_zero)
    then show ?thesis by linarith
  qed
  then show ?thesis
    using ab by (auto simp: py_int_def ceiling_mono floor_mono)
qed

lemma py_int_of_int: "py_int (of_int k) = k"
  by (simp add: py_int_def)

lemma age_of_mono: "now1 \<le> now2 \<Longrightarrow> age_of ts now1 \<le> age_of ts now2"
  by (simp add: age_of_def py_int_mono)

text \<open>
  Claim C2, as stated, fails: with a last packet at time 10 and the clock at 5 the code
  computes the age \<open>-5\<close>, where the contract clamps the age to 0.
\<close>

theorem evaluate_clamp_counterexample:
  "evaluate 10 5 10 = (- 5, True) \<and> evaluate_spec (Some 10) 5 10 = (0, True)
   \<and> evaluate 10 5 10 \<noteq> evaluate_spec (Some 10) 5 10"
  by (simp add: evaluate_def evaluate_spec_def age_of_def py_int_def)

text \<open>
  Claim C2, amended. A name without a recorded timestamp, or with the recorded timestamp
  0, has age 999999 and is not online. Otherwise the age is the difference between the
  clock and the timestamp truncated towards zero, which is its floor when the clock is
  not behind the timestamp and its ceiling, a negative number or zero, when it is; the
  name is online when the age is at most the timeout.
\<close>

theorem evaluate_contract:
  "(last_packet_ts s name = None \<or> last_packet_ts s name = Some 0 \<longrightarrow>
        evaluate (get_ts s name) now tmo = (999999, False))
   \<and> (last_packet_ts s name = Some ts \<and> ts \<noteq> 0 \<and> ts \<le> now \<longrightarrow>
        evaluate (get_ts s name) now tmo = (\<lfloor>now - ts\<rfloor>, \<lfloor>now - ts\<rfloor> \<le> tmo))
   \<and> (last_packet_ts s name = Some ts \<and> ts \<noteq> 0 \<and> now < ts \<longrightarrow>
        evaluate (get_ts s name) now tmo = (\<lceil>now - ts\<rceil>, \<lceil>now - ts\<rceil> \<le> tmo))"
  by (auto simp: evaluate_def Let_def age_of_def py_int_def get_ts_def)

theorem evaluate_contract_witness:
  "evaluate (get_ts \<lparr> known_names = [''am7p''], last_packet_ts = [''am7p'' \<mapsto> 10],
                       next_meta_ts = 0 \<rparr> ''am7p'') (51 / 2) 10 = (15, False)
   \<and> evaluate (get_ts \<lparr> known_names = [''am7p''], last_packet_ts = [''am7p'' \<mapsto> 10],
                       next_meta_ts = 0 \<rparr> ''am7p'') (- 1 / 2) 10 = (- 10, True)
   \<and> evaluate (get_ts \<lparr> known_names = [''am7p''], last_packet_ts = [''am7p'' \<mapsto> 10],
                       next_meta_ts = 0 \<rparr> ''kitchen'') (51 / 2) 10 = (999999, False)"
proof -
  let ?s = "\<lparr> known_names = [''am7p''], last_packet_ts = [''am7p'' \<mapsto> (10 :: rat)],
              next_meta_ts = 0 \<rparr>"
  have a: "last_packet_ts ?s ''am7p'' = Some 10 \<and> (10 :: rat) \<noteq> 0 \<and> (10 :: rat) \<le> 51 / 2"
    by simp
  have b: "last_packet_ts ?s ''am7p'' = Some 10 \<and> (10 :: rat) \<noteq> 0 \<and> (- 1 / 2 :: rat) < 10"
    by simp
  have c: "last_packet_ts ?s ''kitchen'' = None \<or> last_packet_ts ?s ''kitchen'' = Some 0"
    by simp
  have f: "\<lfloor>51 / 2 - 10 :: rat\<rfloor> = 15" "\<lceil>- 1 / 2 - 10 :: rat\<rceil> = - 10"
    by (simp_all add: floor_eq_iff ceiling_eq_iff)
  from evaluate_contract [of ?s "''am7p''" "51 / 2" 10 10] a
  have 1: "evaluate (get_ts ?s ''am7p'') (51 / 2) 10 =
      (\<lfloor>51 / 2 - 10 :: rat\<rfloor>, \<lfloor>51 / 2 - 10 :: rat\<rfloor> \<le> 10)"
    by blast
  from evaluate_contract [of ?s "''am7p''" "- 1 / 2" 10 10] b
  have 2: "evaluate (get_ts ?s ''am7p'') (- 1 / 2) 10 =
      (\<lceil>- 1 / 2 - 10 :: rat\<rceil>, \<lceil>- 1 / 2 - 10 :: rat\<rceil> \<le> 10)"
    by blast
  from evaluate_contract [of ?s "''kitchen''" "51 / 2" 10 10] c
  have 3: "evaluate (get_ts ?s ''kitchen'') (51 / 2) 10 = (999999, False)"
    by blast
  from 1 2 3 show ?thesis
    by (simp only: f) simp
qed

text \<open>
  Claim C6, as stated, fails for the timestamp 0: it is handled as a timestamp that was
  never recorded, so with the timeout 999999 the age equals the timeout and the device
  is reported offline all the same.
\<close>

theorem evaluate_boundary_counterexample:
  "fst (evaluate 0 999999 999999) = 999999 \<and> \<not> snd (evaluate 0 999999 999999)"
  by (simp add: evaluate_def age_of_def)

text \<open>
  Claim C6, amended. For every timestamp and timeout the age never decreases when the
  clock increases, and online, once false, stays false. For every timestamp other than
  0, online holds exactly when the age is at most the timeout: when the age equals the
  timeout the device is still online, one second later it is not, so online goes from
  true to false exactly once. For the timestamp 0 the age is 999999 and online is false
  at every time.
\<close>

theorem evaluate_monotonic:
  "(now1 \<le> now2 \<longrightarrow> fst (evaluate ts now1 tmo) \<le> fst (evaluate ts now2 tmo))
   \<and> (now1 \<le> now2 \<and> snd (evaluate ts now2 tmo) \<longrightarrow> snd (evaluate ts now1 tmo))
   \<and> (ts \<noteq> 0 \<longrightarrow>
        (snd (evaluate ts now tmo) \<longleftrightarrow> fst (evaluate ts now tmo) \<le> tmo)
        \<and> evaluate ts (ts + of_int tmo) tmo = (tmo, True)
        \<and> \<not> snd (evaluate ts (ts + of_int tmo + 1) tmo))
   \<and> evaluate 0 now tmo = (999999, False)"
proof (intro conjI impI)
  show "evaluate 0 now tmo = (999999, False)"
    by (simp add: evaluate_def age_of_def)
  show "fst (evaluate ts now1 tmo) \<le> fst (evaluate ts now2 tmo)" if "now1 \<le> now2"
    using that by (simp add: evaluate_def Let_def age_of_mono)
  show "snd (evaluate ts now1 tmo)" if "now1 \<le> now2 \<and> snd (evaluate ts now2 tmo)"
  proof -
    from that have "age_of ts now1 \<le> age_of ts now2"
      by (simp add: age_of_mono)
    with that show ?thesis
      by (simp add: evaluate_def Let_def)
  qed
next
  assume nz: "ts \<noteq> 0"
  then show "snd (evaluate ts now tmo) \<longleftrightarrow> fst (evaluate ts now tmo) \<le> tmo"
    by (simp add: evaluate_def Let_def)
  have "py_int (ts + of_int tmo - ts) = tmo"
    using py_int_of_int [of tmo] by simp
  with nz show "evaluate ts (ts + of_int tmo) tmo = (tmo, True)"
    by (simp add: evaluate_def Let_def age_of_def)
  have "py_int (ts + of_int tmo + 1 - ts) = tmo + 1"
    using py_int_of_int [of "tmo + 1"] by (simp add: algebra_simps)
  with nz show "\<not> snd (evaluate ts (ts + of_int tmo + 1) tmo)"
    by (simp add: evaluate_def Let_def age_of_def)
qed

theorem evaluate_monotonic_witness:
  "(100 :: rat) \<le> 110 \<and> (110 :: rat) \<le> 111 \<and> (100 :: rat) \<noteq> 0
   \<and> evaluate 100 110 10 = (10, True) \<and> evaluate 100 111 10 = (11, False)
   \<and> fst (evaluate 100 110 10) \<le> fst (evaluate 100 111 10)
   \<and> snd (evaluate 100 100 10)"
proof -
  have le: "(100 :: rat) \<le> 110" "(110 :: rat) \<le> 111" and nz: "(100 :: rat) \<noteq> 0"
    by simp_all
  note m = evaluate_monotonic [of 110 111 100 10 111]
  from m nz have b: "evaluate 100 (100 + of_int 10) 10 = (10, True)"
    by blast
  from m le have a: "fst (evaluate 100 110 10) \<le> fst (evaluate 100 111 10)"
    by blast
  from m nz have c: "\<not> snd (evaluate 100 (100 + of_int 10 + 1) 10)"
       and d: "snd (evaluate 100 111 10) \<longleftrightarrow> fst (evaluate 100 111 10) \<le> 10"
    by blast+
  have e: "evaluate 100 111 10 = (11, False)"
    by (simp add: evaluate_def age_of_def py_int_def)
  from evaluate_monotonic [of 100 110 100 10 110] b have f: "snd (evaluate 100 100 10)"
    by simp
  from a b c e f le nz show ?thesis
    by simp
qed

section \<open>The registry\<close>

lemma known_names_record_packet:
  "set (known_names (snd (record_packet name now s))) = insert name (set (known_names s))"
  by (auto simp: record_packet_def)

lemma known_names_record_packets:
  "set (known_names (record_packets calls s)) = set (known_names s) \<union> fst ` set calls"
  by (induction calls s rule: record_packets.induct) (auto simp: known_names_record_packet)

lemma distinct_record_packet:
  "distinct (known_names s) \<Longrightarrow> distinct (known_names (snd (record_packet name now s)))"
  by (simp add: record_packet_def)

text \<open>
  Claim C7. Starting from the empty registry, a packet for a name is reported as new
  exactly when no earlier packet was recorded for that name; after a first packet for a
  name, whatever is recorded in between, a later packet for it is not new. Recording a
  packet sets the last-seen timestamp of the name to the given time, and this is the
  registry update that the loop makes for a decoded datagram.
\<close>

theorem record_packet_reports_new:
  "fst (record_packet name now (record_packets calls (initial cfg t0))) = (name \<notin> fst ` set calls)
   \<and> fst (record_packet name now s) = (name \<notin> set (known_names s))
   \<and> \<not> fst (record_packet name now' (record_packets calls (snd (record_packet name now s))))
   \<and> last_packet_ts (snd (record_packet name now s)) name = Some now
   \<and> (parse_packet data = Inr (Some m) \<longrightarrow>
        fst (handle_datagram cfg now data ip s) =
          snd (record_packet (get_name_by_ip ip (addr_to_name cfg)) now s))"
proof (intro conjI impI)
  show "fst (record_packet name now (record_packets calls (initial cfg t0))) =
      (name \<notin> fst ` set calls)"
    by (simp add: record_packet_def known_names_record_packets initial_def)
  show "fst (record_packet name now s) = (name \<notin> set (known_names s))"
    by (simp add: record_packet_def)
  have "name \<in> set (known_names (record_packets calls (snd (record_packet name now s))))"
    by (simp add: known_names_record_packets known_names_record_packet)
  then show "\<not> fst (record_packet name now' (record_packets calls (snd (record_packet name now s))))"
    by (simp add: record_packet_def)
  show "last_packet_ts (snd (record_packet name now s)) name = Some now"
    by (simp add: record_packet_def)
  assume "parse_packet data = Inr (Some m)"
  then show "fst (handle_datagram cfg now data ip s) =
          snd (record_packet (get_name_by_ip ip (addr_to_name cfg)) now s)"
    by (simp add: handle_datagram_def Let_def case_prod_beta)
qed

theorem record_packet_reports_new_witness:
  "fst (record_packet ''kitchen'' 1
         (initial \<lparr> online_timeout_s = 10, meta_publish_every_s = 2, addr_to_name = Map.empty \<rparr> 0))
   \<and> \<not> fst (record_packet ''kitchen'' 3
         (record_packets [(''kitchen'', 1), (''am7p'', 2)]
           (initial \<lparr> online_timeout_s = 10, meta_publish_every_s = 2, addr_to_name = Map.empty \<rparr> 0)))
   \<and> fst (handle_datagram \<lparr> online_timeout_s = 10, meta_publish_every_s = 2, addr_to_name = Map.empty \<rparr>
         1 (replicate 37 0) ''10.0.0.5''
         (initial \<lparr> online_timeout_s = 10, meta_publish_every_s = 2, addr_to_name = Map.empty \<rparr> 0))
       = \<lparr> known_names = [''am7p''], last_packet_ts = [''am7p'' \<mapsto> 1], next_meta_ts = 2 \<rparr>"
proof -
  let ?c = "\<lparr> online_timeout_s = 10, meta_publish_every_s = 2, addr_to_name = Map.empty \<rparr>"
  have p: "parse_packet (replicate 37 0) = Inr (Some \<lparr>
       pm25 = 0, pm10 = 0, hcho = 0, tvoc = 0, co2 = 0, temperature = - 35, humidity = 0 \<rparr>)"
    by (simp add: parse_packet_def unpack_from_7H_def u16_be_def py_truediv_0 py_truediv_values)
  have r: "snd (record_packet (get_name_by_ip ''10.0.0.5'' (addr_to_name ?c)) 1 (initial ?c 0)) =
      \<lparr> known_names = [''am7p''], last_packet_ts = [''am7p'' \<mapsto> 1], next_meta_ts = 2 \<rparr>"
    by (simp add: record_packet_def get_name_by_ip_def initial_def)
  note t1 = record_packet_reports_new [of "''kitchen''" 1 "[]" ?c 0 "initial ?c 0" 1
      "replicate 37 0" _ "''10.0.0.5''"]
  note t2 = record_packet_reports_new [of "''kitchen''" 3 "[(''kitchen'', 1), (''am7p'', 2)]" ?c 0
      "initial ?c 0" 3 "[]" _ "''''"]
  from t1 have a: "fst (record_packet ''kitchen'' 1 (initial ?c 0))"
    by simp
  from t2 have b: "\<not> fst (record_packet ''kitchen'' 3
      (record_packets [(''kitchen'', 1), (''am7p'', 2)] (initial ?c 0)))"
    by simp
  from t1 p have c: "fst (handle_datagram ?c 1 (replicate 37 0) ''10.0.0.5'' (initial ?c 0)) =
      snd (record_packet (get_name_by_ip ''10.0.0.5'' (addr_to_name ?c)) 1 (initial ?c 0))"
    by blast
  from a b c r show ?thesis
    by simp
qed

section \<open>Sweep\<close>

lemma set_sweep:
  "set (sweep cfg now s) =
     (\<Union>n \<in> set (known_names s).
        {Age n (fst (evaluate (get_ts s n) now (online_timeout_s cfg))),
         Online n (snd (evaluate (get_ts s n) now (online_timeout_s cfg)))})"
  by (auto simp: sweep_def publish_meta_def case_prod_beta)

lemma sweep_no_announcement:
  "Discovery n \<notin> set (sweep cfg now s)" "State n m \<notin> set (sweep cfg now s)"
  by (auto simp: set_sweep)

lemma periodic_registry:
  "known_names (fst (periodic cfg now s)) = known_names s"
  "last_packet_ts (fst (periodic cfg now s)) = last_packet_ts s"
  by (simp_all add: periodic_def)

lemma periodic_no_announcement:
  "Discovery n \<notin> set (snd (periodic cfg now s))" "State n m \<notin> set (snd (periodic cfg now s))"
  by (simp_all add: periodic_def sweep_no_announcement)

text \<open>
  Claim C10. In a sweep, a known name without a recorded timestamp, or whose recorded
  timestamp is exactly 0, is published with age 999999 and as not online, and with no
  other age or online value.
\<close>

theorem sweep_never_seen:
  "name \<in> set (known_names s) \<Longrightarrow>
   last_packet_ts s name = None \<or> last_packet_ts s name = Some 0 \<Longrightarrow>
     Age name 999999 \<in> set (sweep cfg now s) \<and> Online name False \<in> set (sweep cfg now s)
     \<and> (\<forall>a. Age name a \<in> set (sweep cfg now s) \<longrightarrow> a = 999999)
     \<and> Online name True \<notin> set (sweep cfg now s)
     \<and> (next_meta_ts s \<le> now \<longrightarrow>
          snd (snd (iteration cfg (now, Timeout) s)) = sweep cfg now s)"
proof -
  assume k: "name \<in> set (known_names s)"
    and t: "last_packet_ts s name = None \<or> last_packet_ts s name = Some 0"
  from t have "get_ts s name = 0"
    by (auto simp: get_ts_def)
  then have e: "evaluate (get_ts s name) now (online_timeout_s cfg) = (999999, False)"
    by (simp add: evaluate_def age_of_def)
  have "snd (snd (iteration cfg (now, Timeout) s)) = sweep cfg now s" if "next_meta_ts s \<le> now"
    using that by (simp add: iteration_def periodic_def)
  with k e show ?thesis
    by (auto simp: set_sweep)
qed

theorem sweep_never_seen_witness:
  "sweep \<lparr> online_timeout_s = 10, meta_publish_every_s = 2, addr_to_name = Map.empty \<rparr> 1700000000
     \<lparr> known_names = [''am7p'', ''kitchen''], last_packet_ts = [''kitchen'' \<mapsto> 0],
       next_meta_ts = 0 \<rparr>
   = [Age ''am7p'' 999999, Online ''am7p'' False, Age ''kitchen'' 999999, Online ''kitchen'' False]
   \<and> Age ''am7p'' 999999 \<in> set (sweep \<lparr> online_timeout_s = 10, meta_publish_every_s = 2,
        addr_to_name = Map.empty \<rparr> 1700000000
        \<lparr> known_names = [''am7p'', ''kitchen''], last_packet_ts = [''kitchen'' \<mapsto> 0],
          next_meta_ts = 0 \<rparr>)
   \<and> Online ''kitchen'' True \<notin> set (sweep \<lparr> online_timeout_s = 10, meta_publish_every_s = 2,
        addr_to_name = Map.empty \<rparr> 1700000000
        \<lparr> known_names = [''am7p'', ''kitchen''], last_packet_ts = [''kitchen'' \<mapsto> 0],
          next_meta_ts = 0 \<rparr>)"
proof -
  let ?c = "\<lparr> online_timeout_s = 10, meta_publish_every_s = 2, addr_to_name = Map.empty \<rparr>"
  let ?s = "\<lparr> known_names = [''am7p'', ''kitchen''], last_packet_ts = [''kitchen'' \<mapsto> (0 :: rat)],
              next_meta_ts = 0 \<rparr>"
  have k1: "''am7p'' \<in> set (known_names ?s)" and k2: "''kitchen'' \<in> set (known_names ?s)"
    by simp_all
  have t1: "last_packet_ts ?s ''am7p'' = None \<or> last_packet_ts ?s ''am7p'' = Some 0"
    and t2: "last_packet_ts ?s ''kitchen'' = None \<or> last_packet_ts ?s ''kitchen'' = Some 0"
    by simp_all
  have v: "sweep ?c 1700000000 ?s =
      [Age ''am7p'' 999999, Online ''am7p'' False, Age ''kitchen'' 999999, Online ''kitchen'' False]"
    by (simp add: sweep_def evaluate_def age_of_def get_ts_def publish_meta_def)
  from sweep_never_seen [OF k1 t1, of ?c 1700000000] sweep_never_seen [OF k2 t2, of ?c 1700000000] v
  show ?thesis
    by blast
qed

section \<open>Short datagrams\<close>

text \<open>
  Claim C8. A datagram of fewer than 37 bytes changes nothing: it creates no session,
  records no timestamp and publishes neither discovery nor measurement; the iteration
  goes on exactly as after a timeout of the receive call.
\<close>

theorem short_datagram_ignored:
  "length data < 37 \<Longrightarrow>
     handle_datagram cfg now data ip s = (s, None, [])
     \<and> iteration cfg (now, Datagram data ip) s = iteration cfg (now, Timeout) s
     \<and> known_names (fst (iteration cfg (now, Datagram data ip) s)) = known_names s
     \<and> last_packet_ts (fst (iteration cfg (now, Datagram data ip) s)) = last_packet_ts s
     \<and> Discovery n \<notin> set (snd (snd (iteration cfg (now, Datagram data ip) s)))
     \<and> State n m \<notin> set (snd (snd (iteration cfg (now, Datagram data ip) s)))"
proof -
  assume "length data < 37"
  then have h: "handle_datagram cfg now data ip s = (s, None, [])"
    by (simp add: handle_datagram_def parse_packet_def)
  then have i: "iteration cfg (now, Datagram data ip) s =
      (fst (periodic cfg now s), None, snd (periodic cfg now s))"
    by (simp add: iteration_def split: prod.splits)
  have j: "iteration cfg (now, Timeout) s =
      (fst (periodic cfg now s), None, snd (periodic cfg now s))"
    by (simp add: iteration_def split: prod.splits)
  from h i j show ?thesis
    by (simp add: periodic_registry periodic_no_announcement)
qed

theorem short_datagram_ignored_witness:
  "length (replicate 10 (0 :: byte)) < 37
   \<and> iteration \<lparr> online_timeout_s = 10, meta_publish_every_s = 2, addr_to_name = Map.empty \<rparr>
       (1, Datagram (replicate 10 0) ''10.0.0.5'')
       \<lparr> known_names = [], last_packet_ts = Map.empty, next_meta_ts = 2 \<rparr>
     = (\<lparr> known_names = [], last_packet_ts = Map.empty, next_meta_ts = 2 \<rparr>, None, [])"
proof -
  let ?c = "\<lparr> online_timeout_s = 10, meta_publish_every_s = 2, addr_to_name = Map.empty \<rparr>"
  let ?s = "\<lparr> known_names = [], last_packet_ts = Map.empty, next_meta_ts = (2 :: rat) \<rparr>"
  have l: "length (replicate 10 (0 :: byte)) < 37"
    by simp
  have t: "iteration ?c (1, Timeout) ?s = (?s, None, [])"
    by (simp add: iteration_def periodic_def)
  from short_datagram_ignored [OF l, of ?c 1 "''10.0.0.5''" ?s] l t show ?thesis
    by simp
qed

section \<open>Announcements along a run\<close>

lemma announces_well_meta:
  "\<forall>e \<in> set ms. is_meta e \<Longrightarrow> announces_well K (ms @ es) = announces_well K es"
proof (induction ms)
  case Nil
  then show ?case by simp
next
  case (Cons e ms)
  then show ?case by (cases e) (simp_all add: is_meta_def)
qed

lemma sweep_is_meta: "\<forall>e \<in> set (sweep cfg now s). is_meta e"
  by (auto simp: set_sweep is_meta_def)

lemma periodic_is_meta: "\<forall>e \<in> set (snd (periodic cfg now s)). is_meta e"
  using sweep_is_meta by (simp add: periodic_def)

lemma handle_datagram_cases:
  obtains (ignored) stop where "handle_datagram cfg now data ip s = (s, stop, [])"
  | (known) m where "get_name_by_ip ip (addr_to_name cfg) \<in> set (known_names s)"
      "handle_datagram cfg now data ip s =
         (snd (record_packet (get_name_by_ip ip (addr_to_name cfg)) now s), None,
          [State (get_name_by_ip ip (addr_to_name cfg)) m])"
  | (new) m where "get_name_by_ip ip (addr_to_name cfg) \<notin> set (known_names s)"
      "handle_datagram cfg now data ip s =
         (snd (record_packet (get_name_by_ip ip (addr_to_name cfg)) now s), None,
          [Discovery (get_name_by_ip ip (addr_to_name cfg)),
           State (get_name_by_ip ip (addr_to_name cfg)) m])"
proof (cases "parse_packet data")
  case (Inl e)
  then have "handle_datagram cfg now data ip s = (s, Some Fatal_error, [])"
    by (simp add: handle_datagram_def)
  then show ?thesis by (rule ignored)
next
  case (Inr r)
  show ?thesis
  proof (cases r)
    case None
    with Inr have "handle_datagram cfg now data ip s = (s, None, [])"
      by (simp add: handle_datagram_def)
    then show ?thesis by (rule ignored)
  next
    case (Some m)
    show ?thesis
    proof (cases "get_name_by_ip ip (addr_to_name cfg) \<in> set (known_names s)")
      case True
      with Inr Some show ?thesis
        by (intro known [of m])
          (simp_all add: handle_datagram_def Let_def case_prod_beta record_packet_def
            publish_state_def)
    next
      case False
      with Inr Some show ?thesis
        by (intro new [of m])
          (simp_all add: handle_datagram_def Let_def case_prod_beta record_packet_def
            publish_state_def publish_discovery_def)
    qed
  qed
qed

lemma handle_datagram_announces:
  assumes "handle_datagram cfg now data ip s = (s1, stop, evs)"
    and "\<forall>e \<in> set ms. is_meta e"
    and "announces_well (set (known_names s1)) rest"
  shows "announces_well (set (known_names s)) (evs @ ms @ rest)"
proof (cases rule: handle_datagram_cases [of cfg now data ip s])
  case (ignored stop')
  with assms show ?thesis by (simp add: announces_well_meta)
next
  case (known m)
  with assms show ?thesis
    by (auto simp: announces_well_meta known_names_record_packet insert_absorb)
next
  case (new m)
  with assms show ?thesis
    by (auto simp: announces_well_meta known_names_record_packet)
qed

lemma handle_datagram_distinct:
  "handle_datagram cfg now data ip s = (s1, stop, evs) \<Longrightarrow> distinct (known_names s) \<Longrightarrow>
     distinct (known_names s1)"
  by (cases rule: handle_datagram_cases [of cfg now data ip s])
    (auto simp: distinct_record_packet)

lemma iteration_announces:
  assumes "iteration cfg inp s = (s1, stop, evs)"
    and "announces_well (set (known_names s1)) rest"
  shows "announces_well (set (known_names s)) (evs @ rest)"
proof (cases inp)
  case (Pair now r)
  show ?thesis
  proof (cases r)
    case (Datagram data ip)
    obtain sa stopa eva where h: "handle_datagram cfg now data ip s = (sa, stopa, eva)"
      by (cases "handle_datagram cfg now data ip s") auto
    show ?thesis
    proof (cases stopa)
      case None
      with assms(1) Pair Datagram h
      have e: "s1 = fst (periodic cfg now sa)" "evs = eva @ snd (periodic cfg now sa)"
        by (simp_all add: iteration_def case_prod_beta)
      from assms(2) e have "announces_well (set (known_names sa)) rest"
        by (simp add: periodic_registry)
      from handle_datagram_announces [OF h periodic_is_meta this] e show ?thesis
        by simp
    next
      case (Some x)
      with assms(1) Pair Datagram h have e: "s1 = sa" "evs = eva"
        by (simp_all add: iteration_def)
      from handle_datagram_announces [OF h, of "[]" rest] assms(2) e show ?thesis
        by simp
    qed
  next
    case Timeout
    with assms(1) Pair
    have e: "s1 = fst (periodic cfg now s)" "evs = snd (periodic cfg now s)"
      by (simp_all add: iteration_def case_prod_beta)
    with assms(2) show ?thesis
      using periodic_is_meta [of cfg now s] by (simp add: announces_well_meta periodic_registry)
  next
    case Interrupt
    with assms Pair show ?thesis by (simp add: iteration_def)
  next
    case Fault
    with assms Pair show ?thesis by (simp add: iteration_def)
  qed
qed

lemma iteration_distinct:
  assumes "iteration cfg inp s = (s1, stop, evs)" and "distinct (known_names s)"
  shows "distinct (known_names s1)"
proof (cases inp)
  case (Pair now r)
  show ?thesis
  proof (cases r)
    case (Datagram data ip)
    obtain sa stopa eva where h: "handle_datagram cfg now data ip s = (sa, stopa, eva)"
      by (cases "handle_datagram cfg now data ip s") auto
    from handle_datagram_distinct [OF h assms(2)] have d: "distinct (known_names sa)" .
    show ?thesis
    proof (cases stopa)
      case None
      with assms(1) Pair Datagram h have "s1 = fst (periodic cfg now sa)"
        by (simp add: iteration_def case_prod_beta)
      with d show ?thesis by (simp add: periodic_registry)
    next
      case (Some x)
      with assms(1) Pair Datagram h have "s1 = sa"
        by (simp add: iteration_def)
      with d show ?thesis by simp
    qed
  next
    case Timeout
    with assms(1) Pair have "s1 = fst (periodic cfg now s)"
      by (simp add: iteration_def case_prod_beta)
    with assms(2) show ?thesis by (simp add: periodic_registry)
  next
    case Interrupt
    with assms Pair show ?thesis by (simp add: iteration_def)
  next
    case Fault
    with assms Pair show ?thesis by (simp add: iteration_def)
  qed
qed

lemma loop_announces:
  "loop cfg inps s = (s2, stop, evs) \<Longrightarrow> announces_well (set (known_names s)) evs"
proof (induction inps arbitrary: s s2 stop evs)
  case Nil
  then show ?case by simp
next
  case (Cons inp inps)
  obtain s1 stop1 evs1 where i: "iteration cfg inp s = (s1, stop1, evs1)"
    by (cases "iteration cfg inp s") auto
  show ?case
  proof (cases stop1)
    case None
    obtain s3 stop3 evs3 where l: "loop cfg inps s1 = (s3, stop3, evs3)"
      by (cases "loop cfg inps s1") auto
    from Cons.prems i None l have e: "evs = evs1 @ evs3"
      by simp
    from Cons.IH [OF l] have "announces_well (set (known_names s1)) evs3" .
    from iteration_announces [OF i this] e show ?thesis
      by simp
  next
    case (Some x)
    with Cons.prems i have e: "evs = evs1"
      by simp
    from iteration_announces [OF i, of "[]"] e show ?thesis
      by simp
  qed
qed

lemma loop_distinct:
  "loop cfg inps s = (s2, stop, evs) \<Longrightarrow> distinct (known_names s) \<Longrightarrow> distinct (known_names s2)"
proof (induction inps arbitrary: s s2 stop evs)
  case Nil
  then show ?case by simp
next
  case (Cons inp inps)
  obtain s1 stop1 evs1 where i: "iteration cfg inp s = (s1, stop1, evs1)"
    by (cases "iteration cfg inp s") auto
  from iteration_distinct [OF i Cons.prems(2)] have d: "distinct (known_names s1)" .
  show ?case
  proof (cases stop1)
    case None
    obtain s3 stop3 evs3 where l: "loop cfg inps s1 = (s3, stop3, evs3)"
      by (cases "loop cfg inps s1") auto
    from Cons.prems(1) i None l have "s2 = s3"
      by simp
    with Cons.IH [OF l d] show ?thesis
      by simp
  next
    case (Some x)
    with Cons.prems(1) i have "s2 = s1"
      by simp
    with d show ?thesis by simp
  qed
qed

lemma announces_well_count:
  "announces_well K evs \<Longrightarrow>
     count_list evs (Discovery n) \<le> 1 \<and> (n \<in> K \<longrightarrow> Discovery n \<notin> set evs)"
proof (induction evs arbitrary: K)
  case Nil
  then show ?case by simp
next
  case (Cons e evs)
  show ?case
  proof (cases e)
    case (Discovery n')
    with Cons.prems have "n' \<notin> K" and w: "announces_well (insert n' K) evs"
      by simp_all
    from Cons.IH [OF w] \<open>n' \<notin> K\<close> Discovery show ?thesis
      by auto
  qed (use Cons in auto)
qed

lemma announces_well_state:
  "announces_well K (pre @ State n m # post) \<Longrightarrow> n \<in> K \<or> Discovery n \<in> set pre"
proof (induction pre arbitrary: K)
  case Nil
  then show ?case by simp
next
  case (Cons e pre)
  show ?case
  proof (cases e)
    case (Discovery n')
    with Cons.prems have "announces_well (insert n' K) (pre @ State n m # post)"
      by simp
    from Cons.IH [OF this] Discovery show ?thesis
      by auto
  qed (use Cons in auto)
qed

lemma announces_well_discovery:
  "announces_well K (pre @ Discovery n # post) \<Longrightarrow>
     n \<notin> K \<and> (\<exists>m post'. post = State n m # post') \<and> (\<forall>m. State n m \<notin> set pre)"
proof (induction pre arbitrary: K)
  case Nil
  then show ?case
    by (auto split: list.splits event.splits)
next
  case (Cons e pre)
  show ?case
  proof (cases e)
    case (Discovery n')
    with Cons.prems have "announces_well (insert n' K) (pre @ Discovery n # post)"
      by simp
    from Cons.IH [OF this] Discovery show ?thesis
      by auto
  next
    case (State n' m')
    with Cons.prems have "n' \<in> K" "announces_well K (pre @ Discovery n # post)"
      by simp_all
    from Cons.IH [OF this(2)] this(1) State show ?thesis
      by auto
  qed (use Cons in auto)
qed

lemma parse_packet_no_exception: "parse_packet data \<noteq> Inl e"
proof (cases "length data < 23 + 14")
  case True
  then show ?thesis
    by (simp add: parse_packet_def)
next
  case False
  then have "\<not> length (drop 23 data) < 14"
    by simp
  with False show ?thesis
    unfolding parse_packet_def unpack_from_7H_def by simp
qed

lemma filter_meta: "\<forall>e \<in> set ms. is_meta e \<Longrightarrow> filter (\<lambda>e. \<not> is_meta e) ms = []"
  by (induction ms) auto

lemma filter_periodic: "filter (\<lambda>e. \<not> is_meta e) (snd (periodic cfg now s)) = []"
  using periodic_is_meta by (rule filter_meta)

lemma iteration_datagram:
  "iteration cfg (now, Datagram data ip) s =
     (case parse_packet data of
        Inl e \<Rightarrow> (s, Some Fatal_error, [])
      | Inr None \<Rightarrow> (fst (periodic cfg now s), None, snd (periodic cfg now s))
      | Inr (Some m) \<Rightarrow>
          (fst (periodic cfg now (snd (record_packet (get_name_by_ip ip (addr_to_name cfg)) now s))),
           None,
           (if get_name_by_ip ip (addr_to_name cfg) \<in> set (known_names s)
            then [State (get_name_by_ip ip (addr_to_name cfg)) m]
            else [Discovery (get_name_by_ip ip (addr_to_name cfg)),
                  State (get_name_by_ip ip (addr_to_name cfg)) m])
             @ snd (periodic cfg now (snd (record_packet (get_name_by_ip ip (addr_to_name cfg)) now s)))))"
  by (simp add: iteration_def handle_datagram_def Let_def case_prod_beta record_packet_def
      publish_state_def publish_discovery_def split: sum.splits option.splits)

lemma iteration_timeout:
  "iteration cfg (now, Timeout) s = (fst (periodic cfg now s), None, snd (periodic cfg now s))"
  by (simp add: iteration_def case_prod_beta)

lemma iteration_stop:
  "iteration cfg (now, Interrupt) s = (s, Some Keyboard_interrupt, [])"
  "iteration cfg (now, Fault) s = (s, Some Fatal_error, [])"
  by (simp_all add: iteration_def)

lemma loop_expected:
  "loop cfg inps s = (s2, stop, evs) \<Longrightarrow>
     filter (\<lambda>e. \<not> is_meta e) evs = expected_announcements cfg (set (known_names s)) inps"
proof (induction inps arbitrary: s s2 stop evs)
  case Nil
  then show ?case by simp
next
  case (Cons inp inps)
  obtain now r where inp: "inp = (now, r)"
    by (cases inp) auto
  show ?case
  proof (cases r)
    case (Datagram data ip)
    let ?n = "get_name_by_ip ip (addr_to_name cfg)"
    show ?thesis
    proof (cases "parse_packet data")
      case (Inl e)
      with Cons.prems inp Datagram show ?thesis
        by (simp add: iteration_datagram)
    next
      case (Inr res)
      show ?thesis
      proof (cases res)
        case None
        obtain s3 stop3 evs3 where l: "loop cfg inps (fst (periodic cfg now s)) = (s3, stop3, evs3)"
          by (cases "loop cfg inps (fst (periodic cfg now s))") auto
        from Cons.prems inp Datagram Inr None l
        have e: "evs = snd (periodic cfg now s) @ evs3"
          by (simp add: iteration_datagram)
        from Cons.IH [OF l] e inp Datagram Inr None show ?thesis
          by (simp add: filter_periodic periodic_registry)
      next
        case (Some m)
        let ?s1 = "snd (record_packet ?n now s)"
        let ?A = "if ?n \<in> set (known_names s) then [State ?n m] else [Discovery ?n, State ?n m]"
        obtain s3 stop3 evs3 where l: "loop cfg inps (fst (periodic cfg now ?s1)) = (s3, stop3, evs3)"
          by (cases "loop cfg inps (fst (periodic cfg now ?s1))") auto
        from Cons.prems inp Datagram Inr Some l
        have e: "evs = ?A @ snd (periodic cfg now ?s1) @ evs3"
          by (simp add: iteration_datagram)
        have A: "filter (\<lambda>e. \<not> is_meta e) ?A = ?A"
          by (simp add: is_meta_def)
        from Cons.IH [OF l]
        have "filter (\<lambda>e. \<not> is_meta e) evs3 =
            expected_announcements cfg (insert ?n (set (known_names s))) inps"
          by (simp add: periodic_registry known_names_record_packet)
        with e A inp Datagram Inr Some show ?thesis
          by (simp add: filter_periodic Let_def)
      qed
    qed
  next
    case Timeout
    obtain s3 stop3 evs3 where l: "loop cfg inps (fst (periodic cfg now s)) = (s3, stop3, evs3)"
      by (cases "loop cfg inps (fst (periodic cfg now s))") auto
    from Cons.prems inp Timeout l have e: "evs = snd (periodic cfg now s) @ evs3"
      by (simp add: iteration_timeout)
    from Cons.IH [OF l] e inp Timeout show ?thesis
      by (simp add: filter_periodic periodic_registry)
  next
    case Interrupt
    with Cons.prems inp show ?thesis
      by (simp add: iteration_stop)
  next
    case Fault
    with Cons.prems inp show ?thesis
      by (simp add: iteration_stop)
  qed
qed

lemma decoded_names_Cons:
  "decoded_names cfg (inp # inps) =
     (case decoded_name cfg inp of None \<Rightarrow> decoded_names cfg inps
      | Some n \<Rightarrow> insert n (decoded_names cfg inps))"
  by (cases "decoded_name cfg inp") (simp_all add: decoded_names_def)

lemma decoded_names_Nil: "decoded_names cfg [] = {}"
  by (simp add: decoded_names_def)

lemma expected_append:
  "running before \<Longrightarrow>
     expected_announcements cfg K (before @ rest) =
       expected_announcements cfg K before
         @ expected_announcements cfg (K \<union> decoded_names cfg before) rest"
proof (induction before arbitrary: K)
  case Nil
  then show ?case by (simp add: decoded_names_Nil)
next
  case (Cons inp before)
  obtain now r where inp: "inp = (now, r)"
    by (cases inp) auto
  from Cons.prems have run: "running before" and r: "r \<noteq> Interrupt" "r \<noteq> Fault"
    by (simp_all add: running_def inp)
  show ?case
  proof (cases r)
    case (Datagram data ip)
    show ?thesis
    proof (cases "parse_packet data")
      case (Inl e)
      then show ?thesis
        by (simp add: parse_packet_no_exception)
    next
      case (Inr res)
      then show ?thesis
        using Cons.IH [OF run] inp Datagram
        by (cases res) (simp_all add: decoded_names_Cons Let_def Un_commute insert_commute)
    qed
  next
    case Timeout
    with Cons.IH [OF run] inp show ?thesis
      by (simp add: decoded_names_Cons)
  qed (use r in simp_all)
qed

text \<open>
  Claim C4. Along any run of the loop from its initial state, the discoveries and
  measurements of the trace are, in this order, those that the received datagrams ask
  for: every datagram that decodes while the loop runs publishes its measurement, and
  the first one of a name publishes the discovery of the name just before it; a later
  one of the same name publishes the measurement only. So, for every name: the
  discovery is published exactly once when a measurement of the name is, and never
  otherwise; every measurement of the name is preceded by its discovery; the discovery
  is followed at once by a measurement of the name and no measurement of the name comes
  before it.
\<close>

theorem discovery_once_before_state:
  "loop cfg inps (initial cfg t0) = (s, stop, evs) \<Longrightarrow>
     filter (\<lambda>e. \<not> is_meta e) evs = expected_announcements cfg {} inps
     \<and> (inps = before @ (t, Datagram d a) # after \<and> running before
          \<and> parse_packet d = Inr (Some m0) \<longrightarrow>
          filter (\<lambda>e. \<not> is_meta e) evs =
            expected_announcements cfg {} before
              @ (if get_name_by_ip a (addr_to_name cfg) \<in> decoded_names cfg before
                 then [State (get_name_by_ip a (addr_to_name cfg)) m0]
                 else [Discovery (get_name_by_ip a (addr_to_name cfg)),
                       State (get_name_by_ip a (addr_to_name cfg)) m0])
              @ expected_announcements cfg
                  (insert (get_name_by_ip a (addr_to_name cfg)) (decoded_names cfg before)) after)
     \<and> count_list evs (Discovery name) = (if \<exists>m. State name m \<in> set evs then 1 else 0)
     \<and> (\<forall>pre m post. evs = pre @ State name m # post \<longrightarrow> Discovery name \<in> set pre)
     \<and> (\<forall>pre post. evs = pre @ Discovery name # post \<longrightarrow>
          (\<exists>m post'. post = State name m # post') \<and> (\<forall>m. State name m \<notin> set pre))
     \<and> (parse_packet data = Inr (Some m) \<longrightarrow>
          snd (snd (handle_datagram cfg now data ip s')) =
            (if get_name_by_ip ip (addr_to_name cfg) \<in> set (known_names s')
             then [State (get_name_by_ip ip (addr_to_name cfg)) m]
             else [Discovery (get_name_by_ip ip (addr_to_name cfg)),
                   State (get_name_by_ip ip (addr_to_name cfg)) m]))"
proof -
  assume l: "loop cfg inps (initial cfg t0) = (s, stop, evs)"
  from loop_expected [OF l]
  have f: "filter (\<lambda>e. \<not> is_meta e) evs = expected_announcements cfg {} inps"
    by (simp add: initial_def)
  have g: "filter (\<lambda>e. \<not> is_meta e) evs =
            expected_announcements cfg {} before
              @ (if get_name_by_ip a (addr_to_name cfg) \<in> decoded_names cfg before
                 then [State (get_name_by_ip a (addr_to_name cfg)) m0]
                 else [Discovery (get_name_by_ip a (addr_to_name cfg)),
                       State (get_name_by_ip a (addr_to_name cfg)) m0])
              @ expected_announcements cfg
                  (insert (get_name_by_ip a (addr_to_name cfg)) (decoded_names cfg before)) after"
    if h: "inps = before @ (t, Datagram d a) # after \<and> running before
          \<and> parse_packet d = Inr (Some m0)"
  proof -
    from h have i: "inps = before @ (t, Datagram d a) # after" and r: "running before"
      and p: "parse_packet d = Inr (Some m0)"
      by simp_all
    show ?thesis
      unfolding f i expected_append [OF r] using p by (simp add: Let_def)
  qed
  from loop_announces [OF l] have w: "announces_well {} evs"
    by (simp add: initial_def)
  have a: "count_list evs (Discovery name) \<le> 1"
    using announces_well_count [OF w] by simp
  have b: "Discovery name \<in> set pre" if "evs = pre @ State name m # post" for pre m post
    using announces_well_state [of "{}" pre name m post] w that by simp
  have c: "(\<exists>m post'. post = State name m # post') \<and> (\<forall>m. State name m \<notin> set pre)"
    if "evs = pre @ Discovery name # post" for pre post
    using announces_well_discovery [of "{}" pre name post] w that by simp
  have d: "snd (snd (handle_datagram cfg now data ip s')) =
            (if get_name_by_ip ip (addr_to_name cfg) \<in> set (known_names s')
             then [State (get_name_by_ip ip (addr_to_name cfg)) m]
             else [Discovery (get_name_by_ip ip (addr_to_name cfg)),
                   State (get_name_by_ip ip (addr_to_name cfg)) m])"
    if "parse_packet data = Inr (Some m)"
    using that
    by (simp add: handle_datagram_def Let_def case_prod_beta record_packet_def
        publish_state_def publish_discovery_def)
  have e: "count_list evs (Discovery name) = (if \<exists>m. State name m \<in> set evs then 1 else 0)"
  proof (cases "\<exists>m. State name m \<in> set evs")
    case True
    then obtain m pre post where "evs = pre @ State name m # post"
      by (auto dest: split_list)
    from b [OF this] this have "Discovery name \<in> set evs"
      by simp
    then have "count_list evs (Discovery name) \<noteq> 0"
      by (simp add: count_list_0_iff)
    with a True show ?thesis
      by simp
  next
    case False
    have "Discovery name \<notin> set evs"
    proof
      assume "Discovery name \<in> set evs"
      then obtain pre post where p: "evs = pre @ Discovery name # post"
        by (auto dest: split_list)
      from c [OF p] obtain m post' where "post = State name m # post'"
        by blast
      with p have "State name m \<in> set evs"
        by simp
      with False show False
        by blast
    qed
    with False show ?thesis
      by (simp add: count_list_0_iff)
  qed
  from b have b': "\<forall>pre m post. evs = pre @ State name m # post \<longrightarrow> Discovery name \<in> set pre"
    by blast
  from c have c': "\<forall>pre post. evs = pre @ Discovery name # post \<longrightarrow>
          (\<exists>m post'. post = State name m # post') \<and> (\<forall>m. State name m \<notin> set pre)"
    by blast
  from d have d': "parse_packet data = Inr (Some m) \<longrightarrow>
          snd (snd (handle_datagram cfg now data ip s')) =
            (if get_name_by_ip ip (addr_to_name cfg) \<in> set (known_names s')
             then [State (get_name_by_ip ip (addr_to_name cfg)) m]
             else [Discovery (get_name_by_ip ip (addr_to_name cfg)),
                   State (get_name_by_ip ip (addr_to_name cfg)) m])"
    by blast
  from g have g': "inps = before @ (t, Datagram d a) # after \<and> running before
          \<and> parse_packet d = Inr (Some m0) \<longrightarrow>
          filter (\<lambda>e. \<not> is_meta e) evs =
            expected_announcements cfg {} before
              @ (if get_name_by_ip a (addr_to_name cfg) \<in> decoded_names cfg before
                 then [State (get_name_by_ip a (addr_to_name cfg)) m0]
                 else [Discovery (get_name_by_ip a (addr_to_name cfg)),
                       State (get_name_by_ip a (addr_to_name cfg)) m0])
              @ expected_announcements cfg
                  (insert (get_name_by_ip a (addr_to_name cfg)) (decoded_names cfg before)) after"
    by blast
  from f g' e b' c' d' show ?thesis
    by (intro conjI)
qed

theorem discovery_once_before_state_witness:
  "loop \<lparr> online_timeout_s = 10, meta_publish_every_s = 2,
           addr_to_name = [''10.0.0.5'' \<mapsto> ''kitchen''] \<rparr>
        [(1, Datagram (replicate 37 0) ''10.0.0.5''), (2, Datagram (replicate 37 0) ''10.0.0.5'')]
        (initial \<lparr> online_timeout_s = 10, meta_publish_every_s = 2,
                   addr_to_name = [''10.0.0.5'' \<mapsto> ''kitchen''] \<rparr> 0)
   = (\<lparr> known_names = [''kitchen''], last_packet_ts = [''kitchen'' \<mapsto> 2], next_meta_ts = 4 \<rparr>,
      None,
      [Discovery ''kitchen'',
       State ''kitchen'' \<lparr> pm25 = 0, pm10 = 0, hcho = 0, tvoc = 0, co2 = 0,
                            temperature = - 35, humidity = 0 \<rparr>,
       State ''kitchen'' \<lparr> pm25 = 0, pm10 = 0, hcho = 0, tvoc = 0, co2 = 0,
                            temperature = - 35, humidity = 0 \<rparr>,
       Age ''kitchen'' 0, Online ''kitchen'' True])
   \<and> running [(1, Datagram (replicate 37 0) ''10.0.0.5'')]
   \<and> expected_announcements \<lparr> online_timeout_s = 10, meta_publish_every_s = 2,
           addr_to_name = [''10.0.0.5'' \<mapsto> ''kitchen''] \<rparr> {}
        [(1, Datagram (replicate 37 0) ''10.0.0.5''), (2, Datagram (replicate 37 0) ''10.0.0.5'')]
      = [Discovery ''kitchen'',
         State ''kitchen'' \<lparr> pm25 = 0, pm10 = 0, hcho = 0, tvoc = 0, co2 = 0,
                              temperature = - 35, humidity = 0 \<rparr>,
         State ''kitchen'' \<lparr> pm25 = 0, pm10 = 0, hcho = 0, tvoc = 0, co2 = 0,
                              temperature = - 35, humidity = 0 \<rparr>]
   \<and> count_list
       [Discovery ''kitchen'',
        State ''kitchen'' \<lparr> pm25 = 0, pm10 = 0, hcho = 0, tvoc = 0, co2 = 0,
                             temperature = - 35, humidity = 0 \<rparr>,
        State ''kitchen'' \<lparr> pm25 = 0, pm10 = 0, hcho = 0, tvoc = 0, co2 = 0,
                             temperature = - 35, humidity = 0 \<rparr>,
        Age ''kitchen'' 0, Online ''kitchen'' True] (Discovery ''kitchen'') = 1
   \<and> Discovery ''kitchen'' \<in> set
       [Discovery ''kitchen'',
        State ''kitchen'' \<lparr> pm25 = 0, pm10 = 0, hcho = 0, tvoc = 0, co2 = 0,
                             temperature = - 35, humidity = 0 \<rparr>]"
proof -
  let ?c = "\<lparr> online_timeout_s = 10, meta_publish_every_s = 2,
              addr_to_name = [''10.0.0.5'' \<mapsto> ''kitchen''] \<rparr>"
  let ?m = "\<lparr> pm25 = 0, pm10 = 0, hcho = 0, tvoc = 0, co2 = 0, temperature = - 35,
              humidity = 0 \<rparr>"
  let ?s = "\<lparr> known_names = [''kitchen''], last_packet_ts = [''kitchen'' \<mapsto> (2 :: rat)],
              next_meta_ts = 4 \<rparr>"
  let ?evs = "[Discovery ''kitchen'', State ''kitchen'' ?m, State ''kitchen'' ?m,
               Age ''kitchen'' 0, Online ''kitchen'' True]"
  let ?i1 = "(1 :: rat, Datagram (replicate 37 0) ''10.0.0.5'')"
  let ?i2 = "(2 :: rat, Datagram (replicate 37 0) ''10.0.0.5'')"
  have p: "parse_packet (replicate 37 0) = Inr (Some ?m)"
    by (simp add: parse_packet_def unpack_from_7H_def u16_be_def py_truediv_0 py_truediv_values)
  have l: "loop ?c [?i1, ?i2] (initial ?c 0) = (?s, None, ?evs)"
    by (simp add: Let_def initial_def iteration_def handle_datagram_def p record_packet_def
        periodic_def sweep_def evaluate_def age_of_def py_int_def get_ts_def get_name_by_ip_def
        publish_meta_def publish_state_def publish_discovery_def)
  have r: "running [?i1]"
    by (simp add: running_def)
  have h: "[?i1, ?i2] = [?i1] @ (2, Datagram (replicate 37 0) ''10.0.0.5'') # [] \<and> running [?i1]
      \<and> parse_packet (replicate 37 0) = Inr (Some ?m)"
    using r p by simp
  note t = discovery_once_before_state [OF l, of "[?i1]" 2 "replicate 37 0" "''10.0.0.5''" "[]" ?m
      "''kitchen''"]
  from t have "filter (\<lambda>e. \<not> is_meta e) ?evs = expected_announcements ?c {} [?i1, ?i2]"
    by (rule conjunct1)
  then have f: "expected_announcements ?c {} [?i1, ?i2] =
      [Discovery ''kitchen'', State ''kitchen'' ?m, State ''kitchen'' ?m]"
    by (simp add: is_meta_def)
  from t [THEN conjunct2, THEN conjunct1] h
  have "filter (\<lambda>e. \<not> is_meta e) ?evs =
      expected_announcements ?c {} [?i1]
        @ (if get_name_by_ip ''10.0.0.5'' (addr_to_name ?c) \<in> decoded_names ?c [?i1]
           then [State (get_name_by_ip ''10.0.0.5'' (addr_to_name ?c)) ?m]
           else [Discovery (get_name_by_ip ''10.0.0.5'' (addr_to_name ?c)),
                 State (get_name_by_ip ''10.0.0.5'' (addr_to_name ?c)) ?m])
        @ expected_announcements ?c
            (insert (get_name_by_ip ''10.0.0.5'' (addr_to_name ?c)) (decoded_names ?c [?i1])) []"
    by (rule mp)
  from t [THEN conjunct2, THEN conjunct2, THEN conjunct1]
  have "count_list ?evs (Discovery ''kitchen'') =
      (if \<exists>m. State ''kitchen'' m \<in> set ?evs then 1 else 0)" .
  moreover have "\<exists>m. State ''kitchen'' m \<in> set ?evs"
    by simp
  ultimately have a: "count_list ?evs (Discovery ''kitchen'') = 1"
    by (simp only: if_True)
  from t [THEN conjunct2, THEN conjunct2, THEN conjunct2, THEN conjunct1]
  have "?evs = [Discovery ''kitchen'', State ''kitchen'' ?m] @ State ''kitchen'' ?m #
        [Age ''kitchen'' 0, Online ''kitchen'' True] \<longrightarrow>
      Discovery ''kitchen'' \<in> set [Discovery ''kitchen'', State ''kitchen'' ?m]"
    by blast
  then have b: "Discovery ''kitchen'' \<in> set [Discovery ''kitchen'', State ''kitchen'' ?m]"
    by simp
  from l r f a b show ?thesis
    by (intro conjI)
qed

section \<open>Ages published along a run\<close>

text \<open>
  A sweep happens only when the clock has reached \<^verbatim>\<open>next_meta_ts\<close>, which is never
  before a recorded timestamp as long as the interval between sweeps is not negative.
  So the ages that the sweeps of a run publish are not negative then, even when the clock
  steps back. With a negative interval, or in the exit handler, which reads the clock
  again, the age can be negative.
\<close>

lemma get_ts_bounded: "ts_bounded s b \<Longrightarrow> 0 \<le> b \<or> name \<in> dom (last_packet_ts s) \<Longrightarrow> get_ts s name \<le> b"
  by (auto simp: ts_bounded_def get_ts_def ran_def split: option.splits)

lemma age_of_nonneg: "ts \<le> now \<Longrightarrow> 0 \<le> age_of ts now"
  by (simp add: age_of_def py_int_def)

lemma handle_datagram_ts:
  assumes "handle_datagram cfg now data ip s = (s1, stop, evs)" and "ts_bounded s b"
  shows "ts_bounded s1 (max b now)" "next_meta_ts s1 = next_meta_ts s"
    "dom (last_packet_ts s) = set (known_names s) \<Longrightarrow> dom (last_packet_ts s1) = set (known_names s1)"
    "Age n a \<notin> set evs"
proof -
  have r: "ts_bounded (snd (record_packet name now s)) (max b now)" for name
    using assms(2) unfolding ts_bounded_def record_packet_def
    by (auto simp: ran_def max_def split: if_splits)
  have b: "ts_bounded s (max b now)"
    using assms(2) unfolding ts_bounded_def by (auto simp: max_def)
  have d: "dom (last_packet_ts (snd (record_packet name now s))) =
      set (known_names (snd (record_packet name now s)))"
    if "dom (last_packet_ts s) = set (known_names s)" for name
    using that by (auto simp: record_packet_def)
  show "ts_bounded s1 (max b now)"
    using assms(1) r b by (cases rule: handle_datagram_cases [of cfg now data ip s]) auto
  show "next_meta_ts s1 = next_meta_ts s"
    using assms(1)
    by (cases rule: handle_datagram_cases [of cfg now data ip s]) (auto simp: record_packet_def)
  show "dom (last_packet_ts s1) = set (known_names s1)"
    if "dom (last_packet_ts s) = set (known_names s)"
    using assms(1) d [OF that] that
    by (cases rule: handle_datagram_cases [of cfg now data ip s]) auto
  show "Age n a \<notin> set evs"
    using assms(1) by (cases rule: handle_datagram_cases [of cfg now data ip s]) auto
qed

lemma periodic_ts:
  assumes "ts_bounded s (max (next_meta_ts s) now)" and "0 \<le> meta_publish_every_s cfg"
    and "dom (last_packet_ts s) = set (known_names s)"
  shows "ts_bounded (fst (periodic cfg now s)) (next_meta_ts (fst (periodic cfg now s)))"
    "Age n a \<in> set (snd (periodic cfg now s)) \<Longrightarrow> 0 \<le> a"
proof -
  show "ts_bounded (fst (periodic cfg now s)) (next_meta_ts (fst (periodic cfg now s)))"
  proof (cases "next_meta_ts s \<le> now")
    case True
    then have "max (next_meta_ts s) now = now" by simp
    with assms(1) have "ts_bounded s now" by simp
    moreover have "now \<le> now + of_int (meta_publish_every_s cfg)"
      using assms(2) by simp
    ultimately have "ts_bounded s (now + of_int (meta_publish_every_s cfg))"
      unfolding ts_bounded_def by fastforce
    with True show ?thesis
      by (simp add: periodic_def ts_bounded_def)
  next
    case False
    then have "max (next_meta_ts s) now = next_meta_ts s" by simp
    with assms(1) False show ?thesis
      by (simp add: periodic_def)
  qed
  show "0 \<le> a" if "Age n a \<in> set (snd (periodic cfg now s))"
  proof (cases "next_meta_ts s \<le> now")
    case True
    then have "max (next_meta_ts s) now = now" by simp
    with assms(1) have b: "ts_bounded s now" by simp
    from that True obtain k where k: "k \<in> set (known_names s)"
      and a: "a = fst (evaluate (get_ts s k) now (online_timeout_s cfg))"
      by (auto simp: periodic_def set_sweep)
    from k assms(3) have "k \<in> dom (last_packet_ts s)" by simp
    from get_ts_bounded [OF b disjI2, OF this] have "get_ts s k \<le> now" .
    from age_of_nonneg [OF this] a show ?thesis
      by (simp add: evaluate_def Let_def)
  next
    case False
    with that show ?thesis by (simp add: periodic_def)
  qed
qed

lemma ts_bounded_max: "ts_bounded s b \<Longrightarrow> ts_bounded s (max b c)"
  unfolding ts_bounded_def by (auto simp: max_def)

lemma handle_datagram_stop:
  "handle_datagram cfg now data ip s = (s1, Some x, evs) \<Longrightarrow> s1 = s \<and> evs = []"
  by (cases rule: handle_datagram_cases [of cfg now data ip s]) auto

lemma iteration_ts:
  assumes "iteration cfg inp s = (s1, stop, evs)" and "ts_inv s"
    and "0 \<le> meta_publish_every_s cfg"
  shows "ts_inv s1" "Age n a \<in> set evs \<Longrightarrow> 0 \<le> a"
proof -
  obtain now r where inp: "inp = (now, r)"
    by (cases inp) auto
  from assms(2) have b: "ts_bounded s (next_meta_ts s)"
    and d: "dom (last_packet_ts s) = set (known_names s)"
    by (simp_all add: ts_inv_def)
  have "ts_inv s1 \<and> (Age n a \<in> set evs \<longrightarrow> 0 \<le> a)"
  proof (cases r)
    case (Datagram data ip)
    obtain sa stopa eva where h: "handle_datagram cfg now data ip s = (sa, stopa, eva)"
      by (cases "handle_datagram cfg now data ip s") auto
    note f = handle_datagram_ts [OF h b]
    show ?thesis
    proof (cases stopa)
      case None
      with assms(1) inp Datagram h
      have e: "s1 = fst (periodic cfg now sa)" "evs = eva @ snd (periodic cfg now sa)"
        by (simp_all add: iteration_def case_prod_beta)
      from f(1) f(2) have bb: "ts_bounded sa (max (next_meta_ts sa) now)"
        by simp
      from f(3) [OF d] have dd: "dom (last_packet_ts sa) = set (known_names sa)" .
      from periodic_ts [OF bb assms(3) dd] e f(4) [of n a] dd show ?thesis
        by (auto simp: ts_inv_def periodic_registry)
    next
      case (Some x)
      with assms(1) inp Datagram h have "s1 = sa" "evs = eva"
        by (simp_all add: iteration_def)
      with handle_datagram_stop [of cfg now data ip s sa x eva] h Some assms(2) show ?thesis
        by simp
    qed
  next
    case Timeout
    with assms(1) inp
    have e: "s1 = fst (periodic cfg now s)" "evs = snd (periodic cfg now s)"
      by (simp_all add: iteration_def case_prod_beta)
    from periodic_ts [OF ts_bounded_max [OF b] assms(3) d] e d show ?thesis
      by (auto simp: ts_inv_def periodic_registry)
  next
    case Interrupt
    with assms inp show ?thesis by (simp add: iteration_def)
  next
    case Fault
    with assms inp show ?thesis by (simp add: iteration_def)
  qed
  then show "ts_inv s1" "Age n a \<in> set evs \<Longrightarrow> 0 \<le> a"
    by simp_all
qed

lemma loop_ts:
  "loop cfg inps s = (s2, stop, evs) \<Longrightarrow> ts_inv s \<Longrightarrow> 0 \<le> meta_publish_every_s cfg \<Longrightarrow>
     Age n a \<in> set evs \<Longrightarrow> 0 \<le> a"
proof (induction inps arbitrary: s s2 stop evs)
  case Nil
  then show ?case by simp
next
  case (Cons inp inps)
  obtain s1 stop1 evs1 where i: "iteration cfg inp s = (s1, stop1, evs1)"
    by (cases "iteration cfg inp s") auto
  note f = iteration_ts [OF i Cons.prems(2,3)]
  show ?case
  proof (cases stop1)
    case None
    obtain s3 stop3 evs3 where l: "loop cfg inps s1 = (s3, stop3, evs3)"
      by (cases "loop cfg inps s1") auto
    from Cons.prems(1) i None l have "evs = evs1 @ evs3"
      by simp
    with Cons.prems(4) have "Age n a \<in> set evs1 \<or> Age n a \<in> set evs3"
      by simp
    then show ?thesis
      using f(2) Cons.IH [OF l f(1) Cons.prems(3)] by blast
  next
    case (Some x)
    with Cons.prems(1) i have "evs = evs1"
      by simp
    with Cons.prems(4) f(2) show ?thesis
      by simp
  qed
qed

lemma sweep_ages_not_negative:
  "loop cfg inps (initial cfg t0) = (s, stop, evs) \<Longrightarrow> 0 \<le> meta_publish_every_s cfg \<Longrightarrow>
     Age n a \<in> set evs \<Longrightarrow> 0 \<le> a"
proof -
  have "ts_inv (initial cfg t0)"
    by (simp add: ts_inv_def ts_bounded_def initial_def)
  then show "loop cfg inps (initial cfg t0) = (s, stop, evs) \<Longrightarrow>
      0 \<le> meta_publish_every_s cfg \<Longrightarrow> Age n a \<in> set evs \<Longrightarrow> 0 \<le> a"
    by (rule loop_ts [rotated])
qed

lemma negative_age_with_negative_cadence:
  "snd (snd (loop \<lparr> online_timeout_s = 10, meta_publish_every_s = - 5, addr_to_name = Map.empty \<rparr>
        [(10, Datagram (replicate 37 0) ''10.0.0.5''), (7, Timeout)]
        (initial \<lparr> online_timeout_s = 10, meta_publish_every_s = - 5, addr_to_name = Map.empty \<rparr> 0)))
   = [Discovery ''am7p'',
      State ''am7p'' \<lparr> pm25 = 0, pm10 = 0, hcho = 0, tvoc = 0, co2 = 0, temperature = - 35,
                        humidity = 0 \<rparr>,
      Age ''am7p'' 0, Online ''am7p'' True, Age ''am7p'' (- 3), Online ''am7p'' True]"
proof -
  have p: "parse_packet (replicate 37 0) = Inr (Some \<lparr> pm25 = 0, pm10 = 0, hcho = 0, tvoc = 0,
      co2 = 0, temperature = - 35, humidity = 0 \<rparr>)"
    by (simp add: parse_packet_def unpack_from_7H_def u16_be_def py_truediv_0 py_truediv_values)
  show ?thesis
    by (simp add: Let_def initial_def iteration_def handle_datagram_def p record_packet_def
        periodic_def sweep_def evaluate_def age_of_def py_int_def get_ts_def get_name_by_ip_def
        publish_meta_def publish_state_def publish_discovery_def)
qed

lemma negative_age_at_exit:
  "mark_offline 5 \<lparr> known_names = [''am7p''], last_packet_ts = [''am7p'' \<mapsto> 10],
                    next_meta_ts = 12 \<rparr> = [Age ''am7p'' (- 5), Online ''am7p'' False]"
  by (simp add: mark_offline_def age_of_def py_int_def get_ts_def publish_meta_def)

section \<open>Shutdown\<close>

lemma mark_offline_online:
  "distinct ns \<Longrightarrow> n \<in> set ns \<Longrightarrow>
     count_list (concat (map (\<lambda>k. publish_meta k (f k) False) ns)) (Online n False) = 1"
  by (induction ns) (auto simp: publish_meta_def count_list_0_iff)

lemma mark_offline_age:
  "distinct ns \<Longrightarrow> n \<in> set ns \<Longrightarrow>
     count_list (concat (map (\<lambda>k. publish_meta k (f k) False) ns)) (Age n (f n)) = 1"
  by (induction ns) (auto simp: publish_meta_def count_list_0_iff)

lemma set_mark_offline:
  "set (mark_offline now s) =
     (\<Union>n \<in> set (known_names s). {Age n (age_of (get_ts s n) now), Online n False})"
  by (auto simp: mark_offline_def publish_meta_def)

text \<open>
  Claim C5. When the loop is left, by an interrupt or by a fatal error, the exit handler
  runs: every known name gets exactly one age message and exactly one online message,
  the latter with the value false whatever the age is, and these messages come before
  the socket is closed and the client is stopped.
\<close>

theorem shutdown_marks_all_offline:
  "loop cfg inps (initial cfg t0) = (s, Some e, evs) \<Longrightarrow>
     main cfg t0 inps t_exit = (Some e, evs @ shutdown t_exit s)
     \<and> shutdown t_exit s = mark_offline t_exit s @ [Sock_close, Loop_stop]
     \<and> Sock_close \<notin> set (mark_offline t_exit s) \<and> Loop_stop \<notin> set (mark_offline t_exit s)
     \<and> (\<forall>name \<in> set (known_names s).
          count_list (mark_offline t_exit s) (Online name False) = 1
          \<and> Online name True \<notin> set (mark_offline t_exit s)
          \<and> count_list (mark_offline t_exit s) (Age name (age_of (get_ts s name) t_exit)) = 1
          \<and> (\<forall>a. Age name a \<in> set (mark_offline t_exit s) \<longrightarrow>
                a = age_of (get_ts s name) t_exit))"
proof -
  assume l: "loop cfg inps (initial cfg t0) = (s, Some e, evs)"
  have "distinct (known_names (initial cfg t0))"
    by (simp add: initial_def)
  from loop_distinct [OF l this] have d: "distinct (known_names s)" .
  from l have m: "main cfg t0 inps t_exit = (Some e, evs @ shutdown t_exit s)"
    by (simp add: main_def)
  have c: "count_list (mark_offline t_exit s) (Online name False) = 1"
    "count_list (mark_offline t_exit s) (Age name (age_of (get_ts s name) t_exit)) = 1"
    if "name \<in> set (known_names s)" for name
    unfolding mark_offline_def
    using mark_offline_online [OF d that] mark_offline_age [OF d that] by simp_all
  from m c show ?thesis
    by (auto simp: shutdown_def set_mark_offline)
qed

theorem shutdown_marks_all_offline_witness:
  "main \<lparr> online_timeout_s = 10, meta_publish_every_s = 2,
           addr_to_name = [''10.0.0.5'' \<mapsto> ''kitchen''] \<rparr> 0
        [(1, Datagram (replicate 37 0) ''10.0.0.5''), (2, Datagram (replicate 37 0) ''10.0.0.6''),
         (3, Interrupt)] 4
   = (Some Keyboard_interrupt,
      [Discovery ''kitchen'',
       State ''kitchen'' \<lparr> pm25 = 0, pm10 = 0, hcho = 0, tvoc = 0, co2 = 0,
                            temperature = - 35, humidity = 0 \<rparr>,
       Discovery ''am7p'',
       State ''am7p'' \<lparr> pm25 = 0, pm10 = 0, hcho = 0, tvoc = 0, co2 = 0,
                         temperature = - 35, humidity = 0 \<rparr>,
       Age ''kitchen'' 1, Online ''kitchen'' True, Age ''am7p'' 0, Online ''am7p'' True,
       Age ''kitchen'' 3, Online ''kitchen'' False, Age ''am7p'' 2, Online ''am7p'' False,
       Sock_close, Loop_stop])
   \<and> count_list
        (mark_offline 4 \<lparr> known_names = [''kitchen'', ''am7p''],
                          last_packet_ts = [''kitchen'' \<mapsto> 1, ''am7p'' \<mapsto> 2],
                          next_meta_ts = 4 \<rparr>) (Online ''kitchen'' False) = 1"
proof -
  let ?c = "\<lparr> online_timeout_s = 10, meta_publish_every_s = 2,
              addr_to_name = [''10.0.0.5'' \<mapsto> ''kitchen''] \<rparr>"
  let ?m = "\<lparr> pm25 = 0, pm10 = 0, hcho = 0, tvoc = 0, co2 = 0, temperature = - 35,
              humidity = 0 \<rparr>"
  let ?s = "\<lparr> known_names = [''kitchen'', ''am7p''],
              last_packet_ts = [''kitchen'' \<mapsto> (1 :: rat), ''am7p'' \<mapsto> 2],
              next_meta_ts = 4 \<rparr>"
  let ?evs = "[Discovery ''kitchen'', State ''kitchen'' ?m, Discovery ''am7p'', State ''am7p'' ?m,
               Age ''kitchen'' 1, Online ''kitchen'' True, Age ''am7p'' 0, Online ''am7p'' True]"
  have p: "parse_packet (replicate 37 0) = Inr (Some ?m)"
    by (simp add: parse_packet_def unpack_from_7H_def u16_be_def py_truediv_0 py_truediv_values)
  have l: "loop ?c [(1, Datagram (replicate 37 0) ''10.0.0.5''),
                    (2, Datagram (replicate 37 0) ''10.0.0.6''), (3, Interrupt)] (initial ?c 0)
      = (?s, Some Keyboard_interrupt, ?evs)"
    by (simp add: Let_def initial_def iteration_def handle_datagram_def p record_packet_def
        periodic_def sweep_def evaluate_def age_of_def py_int_def get_ts_def get_name_by_ip_def
        publish_meta_def publish_state_def publish_discovery_def)
  have sh: "shutdown 4 ?s = [Age ''kitchen'' 3, Online ''kitchen'' False, Age ''am7p'' 2,
      Online ''am7p'' False, Sock_close, Loop_stop]"
    by (simp add: shutdown_def mark_offline_def age_of_def py_int_def get_ts_def publish_meta_def)
  have k: "''kitchen'' \<in> set (known_names ?s)"
    by simp
  note t = shutdown_marks_all_offline [OF l, of 4]
  from t have a: "main ?c 0 [(1, Datagram (replicate 37 0) ''10.0.0.5''),
      (2, Datagram (replicate 37 0) ''10.0.0.6''), (3, Interrupt)] 4
      = (Some Keyboard_interrupt, ?evs @ shutdown 4 ?s)"
    by blast
  from t k have b: "count_list (mark_offline 4 ?s) (Online ''kitchen'' False) = 1"
    by blast
  from a b show ?thesis
    by (simp only: sh) simp
qed

end
